theory Spec2Isabelle
  imports Main "HOL-Library.AList" "HOL-Library.Multiset" "HOL-Library.Sublist"
begin

chapter \<open>The embedding: coordination primitives of the chat backend\<close>

text \<open>
  The backend passes every inbound chat message through five small primitives: a counting
  semaphore, a round-robin scheduler, an LRU cache, a priority message queue and a deadlock
  detector. Each section embeds one of them as the TypeScript source writes it (fields as
  record fields, mutation as state passing, exceptions as values) and then proves or
  refutes what the specification says about it.

  Conventions. A JavaScript \<open>number\<close> that only ever holds a count or a timestamp is an
  \<open>int\<close>. \<open>Date.now()\<close> is an argument of the operation that reads it. A \<open>Map\<close> is an
  association list in insertion order, updated with \<open>AList.update\<close> (which, like
  \<open>Map.set\<close>, overwrites in place and appends a new key at the end).
\<close>

section \<open>Semaphore (store/threads.ts, second document)\<close>

text \<open>
  \<open>waitQueue\<close> holds the \<open>resolve\<close> callbacks of the suspended callers. A callback is
  identified here by the caller it resumes (type \<open>'w\<close>). \<open>acquire\<close> returns whether the
  promise it hands back is already resolved; \<open>release\<close> returns the caller whose
  \<open>resolve\<close> it invoked, if any.
\<close>

record 'w Semaphore =
  permits :: int
  maxPermits :: int
  waitQueue :: "'w list"

definition new_Semaphore :: "int \<Rightarrow> 'w Semaphore" where
  "new_Semaphore initialPermits =
     \<lparr>permits = initialPermits, maxPermits = initialPermits, waitQueue = []\<rparr>"

definition acquire :: "'w \<Rightarrow> 'w Semaphore \<Rightarrow> bool \<times> 'w Semaphore" where
  "acquire w s =
     (if permits s > 0 then (True, s\<lparr>permits := permits s - 1\<rparr>)
      else (False, s\<lparr>waitQueue := waitQueue s @ [w]\<rparr>))"

definition release :: "'w Semaphore \<Rightarrow> 'w option \<times> 'w Semaphore" where
  "release s =
     (case waitQueue s of
        w # rest \<Rightarrow> (Some w, s\<lparr>waitQueue := rest\<rparr>)
      | [] \<Rightarrow> (None, s\<lparr>permits := permits s + 1\<rparr>))"

definition tryAcquire :: "'w Semaphore \<Rightarrow> bool \<times> 'w Semaphore" where
  "tryAcquire s =
     (if permits s > 0 then (True, s\<lparr>permits := permits s - 1\<rparr>) else (False, s))"

definition availablePermits :: "'w Semaphore \<Rightarrow> int" where
  "availablePermits s = permits s"

definition getQueueLength :: "'w Semaphore \<Rightarrow> nat" where
  "getQueueLength s = length (waitQueue s)"

text \<open>Callers \<open>ws\<close> call \<open>acquire\<close> one after the other; the results are kept in order.\<close>

fun acquire_all :: "'w list \<Rightarrow> 'w Semaphore \<Rightarrow> bool list \<times> 'w Semaphore" where
  "acquire_all [] s = ([], s)"
| "acquire_all (w # ws) s =
     (case acquire w s of (r, s') \<Rightarrow>
        (case acquire_all ws s' of (rs, s'') \<Rightarrow> (r # rs, s'')))"

subsection \<open>A ledger of granted permits\<close>

text \<open>
  The class keeps no count of the permits it has handed out. To state the pool invariant
  the operations are run next to a ledger \<open>held\<close>: one more for every acquire that
  completes at once, every successful \<open>tryAcquire\<close> and every waiter that a release
  resumes; one less for every \<open>release\<close> call (never below zero: it is a count).
\<close>

datatype 'w sem_op = Acquire 'w | TryAcquire | Release

fun sem_step :: "'w sem_op \<Rightarrow> 'w Semaphore \<times> nat \<Rightarrow> 'w Semaphore \<times> nat" where
  "sem_step (Acquire w) (s, held) =
     (case acquire w s of (ok, s') \<Rightarrow> (s', if ok then held + 1 else held))"
| "sem_step TryAcquire (s, held) =
     (case tryAcquire s of (ok, s') \<Rightarrow> (s', if ok then held + 1 else held))"
| "sem_step Release (s, held) =
     (case release s of
        (Some w, s') \<Rightarrow> (s', (held - 1) + 1)
      | (None, s') \<Rightarrow> (s', held - 1))"

fun sem_run :: "'w sem_op list \<Rightarrow> 'w Semaphore \<times> nat \<Rightarrow> 'w Semaphore \<times> nat" where
  "sem_run [] st = st"
| "sem_run (x # xs) st = sem_run xs (sem_step x st)"

text \<open>A run is paired when every \<open>release\<close> gives back a permit that is held then.\<close>

fun paired :: "'w sem_op list \<Rightarrow> 'w Semaphore \<times> nat \<Rightarrow> bool" where
  "paired [] st = True"
| "paired (x # xs) st = ((if x = Release then 0 < snd st else True) \<and> paired xs (sem_step x st))"

definition pool_inv :: "int \<Rightarrow> 'w Semaphore \<times> nat \<Rightarrow> bool" where
  "pool_inv C st = (0 \<le> permits (fst st) \<and> permits (fst st) \<le> C \<and>
                    permits (fst st) + int (snd st) = C)"

section \<open>RoundRobinScheduler (utils/lruCache.ts, second document)\<close>

text \<open>
  Reading a property of \<open>undefined\<close> throws a \<open>TypeError\<close>. An operation that can throw
  returns \<open>Inl\<close> of the error and the state as the throw leaves it, or \<open>Inr\<close> of its
  result and the new state.
\<close>

datatype js_error = TypeError

record Worker =
  worker_id :: string
  load :: int
  maxLoad :: int
  active :: bool
  lastAssigned :: int

record RoundRobinScheduler =
  workers :: "Worker list"
  currentIndex :: nat
  quantum :: int

definition new_RoundRobinScheduler :: "int \<Rightarrow> RoundRobinScheduler" where
  "new_RoundRobinScheduler q = \<lparr>workers = [], currentIndex = 0, quantum = q\<rparr>"

definition addWorker :: "string \<Rightarrow> int \<Rightarrow> RoundRobinScheduler \<Rightarrow> RoundRobinScheduler" where
  "addWorker wid mx s =
     s\<lparr>workers := workers s @
          [\<lparr>worker_id = wid, load = 0, maxLoad = mx, active = True, lastAssigned = 0\<rparr>]\<rparr>"

definition removeWorker :: "string \<Rightarrow> RoundRobinScheduler \<Rightarrow> RoundRobinScheduler" where
  "removeWorker wid s = s\<lparr>workers := filter (\<lambda>w. worker_id w \<noteq> wid) (workers s)\<rparr>"

text \<open>
  The \<open>while\<close> loop of \<open>assignTask\<close>. One pass reads \<open>workers[currentIndex]\<close>, advances the
  cursor, counts the attempt and only then looks at \<open>worker.active\<close>; when the read was
  outside the array that look throws, with the cursor already advanced. The loop runs
  only on a non-empty array (\<open>assignTask\<close> returns before it otherwise).
\<close>

function assign_loop ::
  "int \<Rightarrow> nat \<Rightarrow> nat \<Rightarrow> RoundRobinScheduler \<Rightarrow>
   js_error \<times> RoundRobinScheduler + Worker option \<times> RoundRobinScheduler" where
  "assign_loop now maxAttempts attempts s =
     (if attempts < maxAttempts then
        (let i = currentIndex s;
             s' = s\<lparr>currentIndex := (i + 1) mod length (workers s)\<rparr>
         in if i < length (workers s) then
              (let worker = workers s ! i
               in if active worker \<and> load worker < maxLoad worker then
                    (let worker' = worker\<lparr>load := load worker + 1, lastAssigned := now\<rparr>
                     in Inr (Some worker', s'\<lparr>workers := (workers s)[i := worker']\<rparr>))
                  else assign_loop now maxAttempts (attempts + 1) s')
            else Inl (TypeError, s'))
      else Inr (None, s))"
  by pat_completeness auto
termination
  by (relation "measure (\<lambda>(now, maxAttempts, attempts, s). maxAttempts - attempts)") auto

declare assign_loop.simps [simp del]

definition assignTask ::
  "int \<Rightarrow> RoundRobinScheduler \<Rightarrow>
   js_error \<times> RoundRobinScheduler + Worker option \<times> RoundRobinScheduler" where
  "assignTask now s =
     (if length (workers s) = 0 then Inr (None, s)
      else assign_loop now (length (workers s)) 0 s)"

text \<open>\<open>releaseTask\<close> changes the first worker that \<open>find\<close> returns for the id.\<close>

fun release_first :: "string \<Rightarrow> Worker list \<Rightarrow> Worker list" where
  "release_first wid [] = []"
| "release_first wid (w # ws) =
     (if worker_id w = wid then (if load w > 0 then w\<lparr>load := load w - 1\<rparr> # ws else w # ws)
      else w # release_first wid ws)"

definition releaseTask :: "string \<Rightarrow> RoundRobinScheduler \<Rightarrow> RoundRobinScheduler" where
  "releaseTask wid s = s\<lparr>workers := release_first wid (workers s)\<rparr>"

definition getNextWorker :: "RoundRobinScheduler \<Rightarrow> Worker option" where
  "getNextWorker s =
     (if currentIndex s < length (workers s) then Some (workers s ! currentIndex s) else None)"

text \<open>The scheduler as the module builds it: three workers of capacity 50.\<close>

definition module_scheduler :: RoundRobinScheduler where
  "module_scheduler =
     addWorker ''worker-3'' 50 (addWorker ''worker-2'' 50 (addWorker ''worker-1'' 50
       (new_RoundRobinScheduler 1000)))"

definition sched_of ::
  "js_error \<times> RoundRobinScheduler + Worker option \<times> RoundRobinScheduler \<Rightarrow> RoundRobinScheduler" where
  "sched_of r = (case r of Inl (e, s) \<Rightarrow> s | Inr (w, s) \<Rightarrow> s)"

section \<open>PriorityMessageQueue (utils/messageQueue.ts, first document)\<close>

datatype MessagePriority = URGENT | HIGH | NORMAL | LOW

record 'a QueuedMessage =
  qm_id :: string
  threadId :: string
  message :: 'a
  priority :: MessagePriority
  timestamp :: int
  retries :: int

text \<open>
  \<open>processQueue\<close> is an \<open>async\<close> function: it runs up to \<open>await this.sendMessage(message)\<close>
  and is resumed when that promise settles. The state therefore also holds the message the
  suspended drain is waiting on (\<open>sending\<close>), and what the drain has printed so far: the
  messages whose send resolved (\<open>delivered\<close>, the "Sent message" lines) and the ids that
  \<open>console.error\<close> reported as failed after \<open>maxRetries\<close> retries (\<open>console_error\<close>).
  How a send settles is an input of the model (the \<open>sendMessage\<close> of the source always
  resolves).
\<close>

datatype delivery = Resolved | Rejected

record 'a PriorityMessageQueue =
  queues :: "MessagePriority \<Rightarrow> 'a QueuedMessage list"
  processing :: bool
  maxRetries :: int
  sending :: "'a QueuedMessage option"
  delivered :: "'a QueuedMessage list"
  console_error :: "string list"

definition new_PriorityMessageQueue :: "'a PriorityMessageQueue" where
  "new_PriorityMessageQueue =
     \<lparr>queues = (\<lambda>p. []), processing = False, maxRetries = 3, sending = None,
      delivered = [], console_error = []\<rparr>"

fun dequeue_from ::
  "MessagePriority list \<Rightarrow> 'a PriorityMessageQueue \<Rightarrow>
   'a QueuedMessage option \<times> 'a PriorityMessageQueue" where
  "dequeue_from [] q = (None, q)"
| "dequeue_from (p # ps) q =
     (case queues q p of
        m # rest \<Rightarrow> (Some m, q\<lparr>queues := (queues q)(p := rest)\<rparr>)
      | [] \<Rightarrow> dequeue_from ps q)"

definition dequeue ::
  "'a PriorityMessageQueue \<Rightarrow> 'a QueuedMessage option \<times> 'a PriorityMessageQueue" where
  "dequeue q = dequeue_from [URGENT, HIGH, NORMAL, LOW] q"

text \<open>
  The head of the \<open>while (true)\<close> loop: dequeue; stop and clear the flag when nothing is
  queued, else start sending and suspend.
\<close>

definition drain :: "'a PriorityMessageQueue \<Rightarrow> 'a PriorityMessageQueue" where
  "drain q =
     (case dequeue q of
        (None, q') \<Rightarrow> q'\<lparr>processing := False\<rparr>
      | (Some m, q') \<Rightarrow> q'\<lparr>sending := Some m\<rparr>)"

definition processQueue :: "'a PriorityMessageQueue \<Rightarrow> 'a PriorityMessageQueue" where
  "processQueue q = (if processing q then q else drain (q\<lparr>processing := True\<rparr>))"

text \<open>
  \<open>queue.sort\<close> with the comparator \<open>a.timestamp - b.timestamp\<close> is a stable ascending
  sort by timestamp, as \<open>sort_key\<close> is.
\<close>

definition enqueue :: "'a QueuedMessage \<Rightarrow> 'a PriorityMessageQueue \<Rightarrow> 'a PriorityMessageQueue" where
  "enqueue m q =
     processQueue
       (q\<lparr>queues := (queues q)(priority m := sort_key timestamp (queues q (priority m) @ [m]))\<rparr>)"

text \<open>
  The drain resumes when the awaited send settles: the loop body after the \<open>await\<close> (the
  \<open>catch\<close> block when the send was rejected), then the head of the next pass.
\<close>

definition settle :: "delivery \<Rightarrow> 'a PriorityMessageQueue \<Rightarrow> 'a PriorityMessageQueue" where
  "settle outcome q =
     (case sending q of
        None \<Rightarrow> q
      | Some m \<Rightarrow>
          (case outcome of
             Resolved \<Rightarrow> drain (q\<lparr>sending := None, delivered := delivered q @ [m]\<rparr>)
           | Rejected \<Rightarrow>
               if retries m < maxRetries q
               then drain (enqueue (m\<lparr>retries := retries m + 1\<rparr>) (q\<lparr>sending := None\<rparr>))
               else drain (q\<lparr>sending := None, console_error := console_error q @ [qm_id m]\<rparr>)))"

record queue_stats =
  urgent :: nat
  high :: nat
  normal :: nat
  low :: nat
  total :: nat

definition queue_getStats :: "'a PriorityMessageQueue \<Rightarrow> queue_stats" where
  "queue_getStats q =
     \<lparr>urgent = length (queues q URGENT), high = length (queues q HIGH),
      normal = length (queues q NORMAL), low = length (queues q LOW),
      total = sum_list (map (\<lambda>p. length (queues q p)) [URGENT, HIGH, NORMAL, LOW])\<rparr>"

subsection \<open>Running the drain to the end\<close>

text \<open>
  Every message waiting in a bucket or in flight, and the number of sends it can still
  cause: one, and one more for each retry left.
\<close>

definition pending :: "'a PriorityMessageQueue \<Rightarrow> 'a QueuedMessage multiset" where
  "pending q =
     mset (queues q URGENT) + mset (queues q HIGH) + mset (queues q NORMAL) +
     mset (queues q LOW) + (case sending q of None \<Rightarrow> {#} | Some m \<Rightarrow> {#m#})"

definition sends_left :: "int \<Rightarrow> 'a QueuedMessage \<Rightarrow> nat" where
  "sends_left mx m = Suc (nat (mx - retries m))"

definition queue_measure :: "'a PriorityMessageQueue \<Rightarrow> nat" where
  "queue_measure q = sum_mset (image_mset (sends_left (maxRetries q)) (pending q))"

text \<open>
  Each resumption of the drain lowers the number of sends still possible, so the drain
  always comes to rest, however the sends settle.
\<close>

lemma dequeue_from_fields:
  "dequeue_from ps q = (r, q') \<Longrightarrow>
   sending q' = sending q \<and> maxRetries q' = maxRetries q \<and> processing q' = processing q \<and>
   delivered q' = delivered q \<and> console_error q' = console_error q"
  by (induction ps arbitrary: q) (auto split: list.splits)

lemma dequeue_from_None:
  "dequeue_from ps q = (None, q') \<Longrightarrow> q' = q \<and> (\<forall>p\<in>set ps. queues q p = [])"
  by (induction ps arbitrary: q) (auto split: list.splits)

lemma dequeue_from_Some:
  "dequeue_from ps q = (Some m, q') \<Longrightarrow>
   \<exists>p rest. queues q p = m # rest \<and> q' = q\<lparr>queues := (queues q)(p := rest)\<rparr>"
  by (induction ps arbitrary: q) (auto split: list.splits)

lemma dequeue_None: "dequeue q = (None, q') \<Longrightarrow> q' = q \<and> (\<forall>p. queues q p = [])"
proof -
  assume "dequeue q = (None, q')"
  then have *: "q' = q \<and> (\<forall>p\<in>set [URGENT, HIGH, NORMAL, LOW]. queues q p = [])"
    unfolding dequeue_def by (rule dequeue_from_None)
  have "p \<in> set [URGENT, HIGH, NORMAL, LOW]" for p by (cases p) simp_all
  with * show ?thesis by blast
qed

lemma dequeue_Some:
  "dequeue q = (Some m, q') \<Longrightarrow>
   \<exists>p rest. queues q p = m # rest \<and> q' = q\<lparr>queues := (queues q)(p := rest)\<rparr>"
  unfolding dequeue_def by (rule dequeue_from_Some)

lemma pending_queues_upd_tl:
  "queues q p = m # rest \<Longrightarrow>
   pending (q\<lparr>queues := (queues q)(p := rest)\<rparr>) + {#m#} = pending q"
  by (cases p) (simp_all add: pending_def)

lemma pending_enq:
  "pending (q\<lparr>queues := (queues q)(p := sort_key f (queues q p @ [m]))\<rparr>) = pending q + {#m#}"
  by (cases p) (simp_all add: pending_def)

lemma drain_cases:
  obtains (idle) "\<forall>p. queues q p = []" "drain q = q\<lparr>processing := False\<rparr>"
  | (busy) p m rest where "queues q p = m # rest"
      "drain q = q\<lparr>queues := (queues q)(p := rest), sending := Some m\<rparr>"
proof (cases "dequeue q")
  case (Pair r q')
  show ?thesis
  proof (cases r)
    case None
    with Pair dequeue_None [of q q'] show ?thesis
      by (intro idle) (auto simp: drain_def)
  next
    case (Some m)
    with Pair dequeue_Some [of q m q'] obtain p rest where
      "queues q p = m # rest" "q' = q\<lparr>queues := (queues q)(p := rest)\<rparr>" by blast
    with Pair Some show ?thesis
      by (intro busy [of p m rest]) (auto simp: drain_def)
  qed
qed

lemma drain_fields:
  "maxRetries (drain q) = maxRetries q \<and> delivered (drain q) = delivered q \<and>
   console_error (drain q) = console_error q"
  by (cases q rule: drain_cases) auto


lemma drain_pending_le: "pending (drain q) \<subseteq># pending q"
proof (cases q rule: drain_cases)
  case idle
  then show ?thesis by (simp add: pending_def)
next
  case (busy p m rest)
  then show ?thesis by (cases p) (auto simp: pending_def split: option.splits)
qed

lemma processQueue_fields:
  "maxRetries (processQueue q) = maxRetries q \<and> delivered (processQueue q) = delivered q \<and>
   console_error (processQueue q) = console_error q"
  by (simp add: processQueue_def drain_fields)

lemma processQueue_pending_le: "pending (processQueue q) \<subseteq># pending q"
proof -
  have "pending (q\<lparr>processing := True\<rparr>) = pending q" by (simp add: pending_def)
  with drain_pending_le [of "q\<lparr>processing := True\<rparr>"] show ?thesis
    by (simp add: processQueue_def)
qed

lemma enqueue_fields:
  "maxRetries (enqueue m q) = maxRetries q \<and> delivered (enqueue m q) = delivered q \<and>
   console_error (enqueue m q) = console_error q"
  by (simp add: enqueue_def processQueue_fields)

lemma enqueue_pending_le: "pending (enqueue m q) \<subseteq># pending q + {#m#}"
  unfolding enqueue_def
  using processQueue_pending_le
    [of "q\<lparr>queues := (queues q)(priority m := sort_key timestamp (queues q (priority m) @ [m]))\<rparr>"]
  by (simp add: pending_enq)

lemma queue_measure_mono:
  "maxRetries q = maxRetries q' \<Longrightarrow> pending q \<subseteq># pending q' \<Longrightarrow> queue_measure q \<le> queue_measure q'"
proof -
  assume mx: "maxRetries q = maxRetries q'" and "pending q \<subseteq># pending q'"
  then obtain C where "pending q' = pending q + C"
    by (auto simp: mset_subset_eq_exists_conv)
  with mx show ?thesis by (simp add: queue_measure_def)
qed

lemma settle_decreases:
  assumes "sending q = Some m"
  shows "queue_measure (settle outcome q) < queue_measure q"
proof -
  let ?idle = "q\<lparr>sending := None\<rparr>"
  have split: "pending q = pending ?idle + {#m#}"
    using assms by (simp add: pending_def)
  have w: "0 < sends_left (maxRetries q) m" by (simp add: sends_left_def)
  show ?thesis
  proof (cases outcome)
    case Resolved
    let ?q1 = "q\<lparr>sending := None, delivered := delivered q @ [m]\<rparr>"
    have "pending (drain ?q1) \<subseteq># pending ?idle"
      using drain_pending_le [of ?q1] by (simp add: pending_def)
    then have "queue_measure (drain ?q1) \<le> queue_measure ?idle"
      by (intro queue_measure_mono) (simp_all add: drain_fields)
    also have "\<dots> < queue_measure q"
      using w by (simp add: queue_measure_def split)
    finally show ?thesis using assms Resolved by (simp add: settle_def)
  next
    case Rejected
    show ?thesis
    proof (cases "retries m < maxRetries q")
      case True
      let ?m' = "m\<lparr>retries := retries m + 1\<rparr>"
      let ?q1 = "enqueue ?m' ?idle"
      have "pending (drain ?q1) \<subseteq># pending ?q1" by (rule drain_pending_le)
      also have "\<dots> \<subseteq># pending ?idle + {#?m'#}" by (rule enqueue_pending_le)
      finally have "queue_measure (drain ?q1) \<le> queue_measure (?idle\<lparr>sending := Some ?m'\<rparr>)"
        by (intro queue_measure_mono) (simp_all add: drain_fields enqueue_fields pending_def)
      also have "\<dots> < queue_measure q"
        using True assms by (simp add: queue_measure_def pending_def sends_left_def)
      finally show ?thesis using assms Rejected True by (simp add: settle_def)
    next
      case False
      let ?q1 = "q\<lparr>sending := None, console_error := console_error q @ [qm_id m]\<rparr>"
      have "pending (drain ?q1) \<subseteq># pending ?idle"
        using drain_pending_le [of ?q1] by (simp add: pending_def)
      then have "queue_measure (drain ?q1) \<le> queue_measure ?idle"
        by (intro queue_measure_mono) (simp_all add: drain_fields)
      also have "\<dots> < queue_measure q"
        using w by (simp add: queue_measure_def split)
      finally show ?thesis using assms Rejected False by (simp add: settle_def)
    qed
  qed
qed

function run_queue ::
  "('a QueuedMessage \<Rightarrow> delivery) \<Rightarrow> 'a PriorityMessageQueue \<Rightarrow> 'a PriorityMessageQueue" where
  "run_queue send q =
     (case sending q of
        None \<Rightarrow> q
      | Some m \<Rightarrow> run_queue send (settle (send m) q))"
  by pat_completeness auto
termination
  by (relation "measure (\<lambda>(send, q). queue_measure q)") (auto intro: settle_decreases)

declare run_queue.simps [simp del]


text \<open>
  The states the class can be in between two events: a drain is suspended on a send
  exactly when \<open>processing\<close> is set, and with no drain the buckets are empty.
\<close>

definition queue_ok :: "'a PriorityMessageQueue \<Rightarrow> bool" where
  "queue_ok q =
     (case sending q of
        None \<Rightarrow> queues q = (\<lambda>p. []) \<and> \<not> processing q
      | Some m \<Rightarrow> processing q)"


text \<open>The record that the \<open>send-message\<close> handler enqueues.\<close>

definition new_QueuedMessage ::
  "string \<Rightarrow> string \<Rightarrow> 'a \<Rightarrow> MessagePriority \<Rightarrow> int \<Rightarrow> 'a QueuedMessage" where
  "new_QueuedMessage i th msg p t =
     \<lparr>qm_id = i, threadId = th, message = msg, priority = p, timestamp = t, retries = 0\<rparr>"

section \<open>DeadlockDetector (utils/deadlockDetector.ts)\<close>

record Resource =
  resource_id :: string
  resource_type :: string
  holder :: "string option"
  res_waitQueue :: "string list"

record Process =
  process_id :: string
  holding :: "string list"
  waiting :: "string list"

record DeadlockDetector =
  resources :: "(string \<times> Resource) list"
  processes :: "(string \<times> Process) list"

definition new_DeadlockDetector :: DeadlockDetector where
  "new_DeadlockDetector = \<lparr>resources = [], processes = []\<rparr>"

text \<open>
  \<open>holder\<close> is a \<open>string | null\<close> that the code tests by truthiness (\<open>!resource.holder\<close>,
  \<open>if (resource.holder)\<close>): \<open>null\<close> and the empty string both count as no holder.
\<close>

definition has_holder :: "Resource \<Rightarrow> bool" where
  "has_holder r = (case holder r of None \<Rightarrow> False | Some p \<Rightarrow> p \<noteq> [])"

subsection \<open>The allocation graph and its cycle check\<close>

type_synonym graph = "(string \<times> string list) list"

text \<open>
  \<open>graph_add k vs g\<close>: \<open>if (!graph.has(k)) graph.set(k, [])\<close>, then push every element of
  \<open>vs\<close> onto \<open>graph.get(k)\<close>.
\<close>

definition graph_add :: "string \<Rightarrow> string list \<Rightarrow> graph \<Rightarrow> graph" where
  "graph_add k vs g =
     (case map_of g k of
        None \<Rightarrow> AList.update k vs g
      | Some old \<Rightarrow> AList.update k (old @ vs) g)"

definition buildResourceAllocationGraph :: "DeadlockDetector \<Rightarrow> graph" where
  "buildResourceAllocationGraph d =
     foldl (\<lambda>g r. graph_add (resource_id r) (if has_holder r then [the (holder r)] else []) g)
       (foldl (\<lambda>g p. graph_add (process_id p) (waiting p) g) [] (map snd (processes d)))
       (map snd (resources d))"

text \<open>\<open>graph.get(node) || []\<close>\<close>

definition neighbors :: "graph \<Rightarrow> string \<Rightarrow> string list" where
  "neighbors g node = (case map_of g node of None \<Rightarrow> [] | Some ns \<Rightarrow> ns)"

definition graph_nodes :: "graph \<Rightarrow> string set" where
  "graph_nodes g = fst ` set g \<union> (\<Union>kv \<in> set g. set (snd kv))"

text \<open>
  The closure \<open>dfs\<close> of \<open>hasCycle\<close> and its \<open>for\<close> loop over the neighbours. The two sets
  \<open>visited\<close> and \<open>recStack\<close>, which the closure mutates, are passed in and returned.
\<close>

function dfs :: "graph \<Rightarrow> string \<Rightarrow> string set \<times> string set \<Rightarrow> bool \<times> string set \<times> string set"
  and dfs_neighbors ::
    "graph \<Rightarrow> string list \<Rightarrow> string set \<times> string set \<Rightarrow> bool \<times> string set \<times> string set" where
  "dfs g node (visited, recStack) =
     (case dfs_neighbors g (neighbors g node) (insert node visited, insert node recStack) of
        (True, st) \<Rightarrow> (True, st)
      | (False, (visited', recStack')) \<Rightarrow> (False, (visited', recStack' - {node})))"
| "dfs_neighbors g [] st = (False, st)"
| "dfs_neighbors g (neighbor # rest) (visited, recStack) =
     (if neighbor \<notin> visited then
        (case dfs g neighbor (visited, recStack) of
           (True, st) \<Rightarrow> (True, st)
         | (False, st) \<Rightarrow> dfs_neighbors g rest st)
      else if neighbor \<in> recStack then (True, (visited, recStack))
      else dfs_neighbors g rest (visited, recStack))"
  by pat_completeness auto


text \<open>
  Every call either visits a node of the graph for the first time or works on a shorter
  list of neighbours, so the search ends. The result of the inner call is fed to the rest
  of the loop, hence the lemma on what a call leaves visited.
\<close>

lemma neighbors_in_nodes: "set (neighbors g node) \<subseteq> graph_nodes g"
proof
  fix x assume x: "x \<in> set (neighbors g node)"
  then obtain ns where ns: "map_of g node = Some ns" "x \<in> set ns"
    by (cases "map_of g node") (auto simp: neighbors_def)
  then have "(node, ns) \<in> set g" by (auto dest: map_of_SomeD)
  with ns(2) show "x \<in> graph_nodes g" by (force simp: graph_nodes_def)
qed

lemma finite_graph_nodes: "finite (graph_nodes g)"
  by (simp add: graph_nodes_def)

lemma dfs_visited_mono_dom:
  "dfs_dfs_neighbors_dom (Inl (g, node, st)) \<Longrightarrow> fst st \<subseteq> fst (snd (dfs g node st))"
  "dfs_dfs_neighbors_dom (Inr (g, ns, st)) \<Longrightarrow> fst st \<subseteq> fst (snd (dfs_neighbors g ns st))"
proof (induct g node st and g ns st rule: dfs_dfs_neighbors.pinduct)
  case (1 g node visited recStack)
  then show ?case
    by (auto simp: dfs.psimps split: prod.splits bool.splits)
next
  case (2 g st)
  then show ?case by (simp add: dfs_neighbors.psimps)
next
  case (3 g neighbor rest visited recStack)
  show ?case
  proof (cases "neighbor \<in> visited")
    case True
    with 3 show ?thesis by (auto simp: dfs_neighbors.psimps)
  next
    case False
    obtain b st' where r: "dfs g neighbor (visited, recStack) = (b, st')"
      by (cases "dfs g neighbor (visited, recStack)") auto
    from "3.hyps"(2) [OF False] r have m1: "visited \<subseteq> fst st'" by simp
    show ?thesis
    proof (cases b)
      case True
      with False r m1 "3.hyps"(1) show ?thesis by (simp add: dfs_neighbors.psimps)
    next
      case bf: False
      then have b: "b = False" by simp
      from "3.hyps"(3) [OF False r [symmetric] b] m1 False r bf "3.hyps"(1)
      show ?thesis by (auto simp: dfs_neighbors.psimps)
    qed
  qed
qed

definition dfs_unvisited ::
  "graph \<times> string \<times> string set \<times> string set + graph \<times> string list \<times> string set \<times> string set \<Rightarrow> nat"
  where
  "dfs_unvisited x =
     (case x of
        Inl (g, node, visited, recStack) \<Rightarrow> card (graph_nodes g - insert node visited)
      | Inr (g, ns, visited, recStack) \<Rightarrow> card ((graph_nodes g \<union> set ns) - visited))"

definition dfs_rank ::
  "graph \<times> string \<times> string set \<times> string set + graph \<times> string list \<times> string set \<times> string set \<Rightarrow> nat"
  where
  "dfs_rank x = (case x of Inl _ \<Rightarrow> 1 | Inr (g, ns, st) \<Rightarrow> 0)"

definition dfs_todo ::
  "graph \<times> string \<times> string set \<times> string set + graph \<times> string list \<times> string set \<times> string set \<Rightarrow> nat"
  where
  "dfs_todo x = (case x of Inl _ \<Rightarrow> 0 | Inr (g, ns, st) \<Rightarrow> length ns)"

termination dfs
proof (relation "measures [dfs_unvisited, dfs_rank, dfs_todo]", goal_cases)
  case 1
  show ?case by simp
next
  case (2 g node visited recStack)
  have "(graph_nodes g \<union> set (neighbors g node)) - insert node visited =
        graph_nodes g - insert node visited"
    using neighbors_in_nodes [of g node] by auto
  then show ?case by (simp add: dfs_unvisited_def dfs_rank_def)
next
  case (3 g neighbor rest visited recStack)
  have "graph_nodes g - insert neighbor visited \<subset> (graph_nodes g \<union> set (neighbor # rest)) - visited"
    using 3 by auto
  moreover have "finite ((graph_nodes g \<union> set (neighbor # rest)) - visited)"
    by (simp add: finite_graph_nodes)
  ultimately have "card (graph_nodes g - insert neighbor visited)
                   < card ((graph_nodes g \<union> set (neighbor # rest)) - visited)"
    by (rule psubset_card_mono [rotated])
  then show ?case by (simp add: dfs_unvisited_def)
next
  case (4 g neighbor rest visited recStack x y)
  from dfs_visited_mono_dom(1) [OF 4(4)] 4(2) have "visited \<subseteq> fst y"
    by (metis fst_conv snd_conv)
  then have "(graph_nodes g \<union> set rest) - fst y \<subseteq> (graph_nodes g \<union> set (neighbor # rest)) - visited"
    by auto
  moreover have "finite ((graph_nodes g \<union> set (neighbor # rest)) - visited)"
    by (simp add: finite_graph_nodes)
  ultimately have "card ((graph_nodes g \<union> set rest) - fst y)
                   \<le> card ((graph_nodes g \<union> set (neighbor # rest)) - visited)"
    by (rule card_mono [rotated])
  then show ?case
    by (cases y) (auto simp: dfs_unvisited_def dfs_rank_def dfs_todo_def)
next
  case (5 g neighbor rest visited recStack)
  have "(graph_nodes g \<union> set rest) - visited \<subseteq> (graph_nodes g \<union> set (neighbor # rest)) - visited"
    by auto
  moreover have "finite ((graph_nodes g \<union> set (neighbor # rest)) - visited)"
    by (simp add: finite_graph_nodes)
  ultimately have "card ((graph_nodes g \<union> set rest) - visited)
                   \<le> card ((graph_nodes g \<union> set (neighbor # rest)) - visited)"
    by (rule card_mono [rotated])
  then show ?case
    by (auto simp: dfs_unvisited_def dfs_rank_def dfs_todo_def)
qed

declare dfs.simps [simp del]

text \<open>The loop \<open>for (const node of graph.keys())\<close> of \<open>hasCycle\<close>.\<close>

fun hasCycle_from :: "graph \<Rightarrow> string list \<Rightarrow> string set \<times> string set \<Rightarrow> bool" where
  "hasCycle_from g [] st = False"
| "hasCycle_from g (node # rest) (visited, recStack) =
     (if node \<notin> visited then
        (case dfs g node (visited, recStack) of
           (True, st) \<Rightarrow> True
         | (False, st) \<Rightarrow> hasCycle_from g rest st)
      else hasCycle_from g rest (visited, recStack))"

definition hasCycle :: "graph \<Rightarrow> bool" where
  "hasCycle g = hasCycle_from g (map fst g) ({}, {})"

definition detectDeadlock :: "DeadlockDetector \<Rightarrow> bool" where
  "detectDeadlock d = hasCycle (buildResourceAllocationGraph d)"

subsection \<open>Requests and releases\<close>

text \<open>
  \<open>resource\<close> and \<open>process\<close> are the objects the two maps hold; assigning to a field of
  one changes the map's entry. \<open>modify_resource k f\<close> does that to the entry under key \<open>k\<close>.
\<close>

definition modify_resource ::
  "string \<Rightarrow> (Resource \<Rightarrow> Resource) \<Rightarrow> DeadlockDetector \<Rightarrow> DeadlockDetector" where
  "modify_resource k f d =
     d\<lparr>resources := map (\<lambda>(k', r). if k' = k then (k', f r) else (k', r)) (resources d)\<rparr>"

definition modify_process ::
  "string \<Rightarrow> (Process \<Rightarrow> Process) \<Rightarrow> DeadlockDetector \<Rightarrow> DeadlockDetector" where
  "modify_process k f d =
     d\<lparr>processes := map (\<lambda>(k', p). if k' = k then (k', f p) else (k', p)) (processes d)\<rparr>"

text \<open>Lines 23 to 40: the resource and the process are created on first mention.\<close>

definition register :: "string \<Rightarrow> string \<Rightarrow> DeadlockDetector \<Rightarrow> DeadlockDetector" where
  "register processId resourceId d =
     (let d1 = (case map_of (resources d) resourceId of
                  Some r \<Rightarrow> d
                | None \<Rightarrow>
                    d\<lparr>resources := resources d @
                      [(resourceId, \<lparr>resource_id = resourceId, resource_type = ''thread'',
                                     holder = None, res_waitQueue = []\<rparr>)]\<rparr>)
      in case map_of (processes d1) processId of
           Some p \<Rightarrow> d1
         | None \<Rightarrow>
             d1\<lparr>processes := processes d1 @
               [(processId, \<lparr>process_id = processId, holding = [], waiting = []\<rparr>)]\<rparr>)"

definition resource_held :: "string \<Rightarrow> DeadlockDetector \<Rightarrow> bool" where
  "resource_held resourceId d =
     (case map_of (resources d) resourceId of None \<Rightarrow> False | Some r \<Rightarrow> has_holder r)"

text \<open>Lines 44 and 45.\<close>

definition grant :: "string \<Rightarrow> string \<Rightarrow> DeadlockDetector \<Rightarrow> DeadlockDetector" where
  "grant processId resourceId d =
     modify_process processId (\<lambda>p. p\<lparr>holding := holding p @ [resourceId]\<rparr>)
       (modify_resource resourceId (\<lambda>r. r\<lparr>holder := Some processId\<rparr>) d)"

text \<open>Lines 51 and 52.\<close>

definition enter_wait :: "string \<Rightarrow> string \<Rightarrow> DeadlockDetector \<Rightarrow> DeadlockDetector" where
  "enter_wait processId resourceId d =
     modify_process processId (\<lambda>p. p\<lparr>waiting := waiting p @ [resourceId]\<rparr>)
       (modify_resource resourceId (\<lambda>r. r\<lparr>res_waitQueue := res_waitQueue r @ [processId]\<rparr>) d)"

text \<open>Lines 59 and 60.\<close>

definition retract_wait :: "string \<Rightarrow> string \<Rightarrow> DeadlockDetector \<Rightarrow> DeadlockDetector" where
  "retract_wait processId resourceId d =
     modify_process processId (\<lambda>p. p\<lparr>waiting := filter (\<lambda>r. r \<noteq> resourceId) (waiting p)\<rparr>)
       (modify_resource resourceId
          (\<lambda>r. r\<lparr>res_waitQueue := filter (\<lambda>p. p \<noteq> processId) (res_waitQueue r)\<rparr>) d)"

definition requestResource ::
  "string \<Rightarrow> string \<Rightarrow> DeadlockDetector \<Rightarrow> bool \<times> DeadlockDetector" where
  "requestResource processId resourceId d =
     (let d2 = register processId resourceId d
      in if \<not> resource_held resourceId d2 then (True, grant processId resourceId d2)
         else
           (let d3 = enter_wait processId resourceId d2
            in if detectDeadlock d3 then (False, retract_wait processId resourceId d3)
               else (False, d3)))"

definition releaseResource :: "string \<Rightarrow> string \<Rightarrow> DeadlockDetector \<Rightarrow> DeadlockDetector" where
  "releaseResource processId resourceId d =
     (case (map_of (resources d) resourceId, map_of (processes d) processId) of
        (Some resource, Some process) \<Rightarrow>
          if holder resource \<noteq> Some processId then d
          else
            (let d1 = modify_process processId
                        (\<lambda>p. p\<lparr>holding := filter (\<lambda>r. r \<noteq> resourceId) (holding p)\<rparr>)
                        (modify_resource resourceId (\<lambda>r. r\<lparr>holder := None\<rparr>) d)
             in case res_waitQueue resource of
                  [] \<Rightarrow> d1
                | nextProcess # rest \<Rightarrow>
                    (let d2 = modify_resource resourceId (\<lambda>r. r\<lparr>res_waitQueue := rest\<rparr>) d1
                     in case map_of (processes d2) nextProcess of
                          None \<Rightarrow> d2
                        | Some nextProcessObj \<Rightarrow>
                            modify_process nextProcess
                              (\<lambda>p. p\<lparr>holding := holding p @ [resourceId],
                                     waiting := filter (\<lambda>r. r \<noteq> resourceId) (waiting p)\<rparr>)
                              (modify_resource resourceId (\<lambda>r. r\<lparr>holder := Some nextProcess\<rparr>) d2)))
      | _ \<Rightarrow> d)"

text \<open>
  In every entry the maps hold, the object's \<open>id\<close> is the key it is stored under (the
  only \<open>set\<close> calls store \<open>{id: k, ...}\<close> under \<open>k\<close>).
\<close>

definition ids_match_keys :: "DeadlockDetector \<Rightarrow> bool" where
  "ids_match_keys d =
     ((\<forall>kr \<in> set (resources d). resource_id (snd kr) = fst kr) \<and>
      (\<forall>kp \<in> set (processes d). process_id (snd kp) = fst kp))"






section \<open>LRUCache (utils/lruCache.ts, first document)\<close>

text \<open>
  The nodes of the recency list are objects that point at each other through \<open>prev\<close> and
  \<open>next\<close>, and the \<open>Map\<close> points at the same objects. They live in a store \<open>nodes\<close>, a map
  from addresses to node records; a reference is an address, \<open>null\<close> is \<open>None\<close>, and
  \<open>allocated\<close> counts the objects created so far (the next one gets that address).
  Assigning to a field of an object is \<open>update_node\<close>. The fields \<open>value\<close> and \<open>next\<close> are
  named \<open>node_value\<close> and \<open>nxt\<close> here.
\<close>

type_synonym addr = nat

record ('k, 'v) CacheNode =
  key :: 'k
  node_value :: 'v
  prev :: "addr option"
  nxt :: "addr option"
  accessCount :: int
  lastAccessed :: int

record ('k, 'v) LRUCache =
  capacity :: int
  cache :: "('k \<times> addr) list"
  head :: "addr option"
  tail :: "addr option"
  hits :: int
  misses :: int
  nodes :: "addr \<Rightarrow> ('k, 'v) CacheNode option"
  allocated :: nat

definition new_LRUCache :: "int \<Rightarrow> ('k, 'v) LRUCache" where
  "new_LRUCache cap =
     \<lparr>capacity = cap, cache = [], head = None, tail = None, hits = 0, misses = 0,
      nodes = (\<lambda>a. None), allocated = 0\<rparr>"

definition the_node :: "('k, 'v) LRUCache \<Rightarrow> addr \<Rightarrow> ('k, 'v) CacheNode" where
  "the_node c a = the (nodes c a)"

definition update_node ::
  "addr \<Rightarrow> (('k, 'v) CacheNode \<Rightarrow> ('k, 'v) CacheNode) \<Rightarrow> ('k, 'v) LRUCache \<Rightarrow> ('k, 'v) LRUCache"
  where
  "update_node a f c = c\<lparr>nodes := (nodes c)(a \<mapsto> f (the_node c a))\<rparr>"

text \<open>One binding for each statement of \<open>moveToFront\<close>, in the order of the source.\<close>

definition moveToFront :: "addr \<Rightarrow> ('k, 'v) LRUCache \<Rightarrow> ('k, 'v) LRUCache" where
  "moveToFront a c =
     (if head c = Some a then c
      else
        (let c1 = (case prev (the_node c a) of
                     Some p \<Rightarrow> update_node p (\<lambda>n. n\<lparr>nxt := nxt (the_node c a)\<rparr>) c
                   | None \<Rightarrow> c);
             c2 = (case nxt (the_node c1 a) of
                     Some x \<Rightarrow> update_node x (\<lambda>n. n\<lparr>prev := prev (the_node c1 a)\<rparr>) c1
                   | None \<Rightarrow> c1);
             c3 = (if tail c2 = Some a then c2\<lparr>tail := prev (the_node c2 a)\<rparr> else c2);
             c4 = update_node a (\<lambda>n. n\<lparr>prev := None, nxt := head c3\<rparr>) c3;
             c5 = (case head c4 of
                     Some h \<Rightarrow> update_node h (\<lambda>n. n\<lparr>prev := Some a\<rparr>) c4
                   | None \<Rightarrow> c4);
             c6 = c5\<lparr>head := Some a\<rparr>
         in if tail c6 = None then c6\<lparr>tail := Some a\<rparr> else c6))"

definition evictLRU :: "('k, 'v) LRUCache \<Rightarrow> ('k, 'v) LRUCache" where
  "evictLRU c =
     (case tail c of
        None \<Rightarrow> c
      | Some t \<Rightarrow>
          (let evictedKey = key (the_node c t);
               c1 = (case prev (the_node c t) of
                       Some p \<Rightarrow> (update_node p (\<lambda>n. n\<lparr>nxt := None\<rparr>) c)\<lparr>tail := Some p\<rparr>
                     | None \<Rightarrow> c\<lparr>head := None, tail := None\<rparr>)
           in c1\<lparr>cache := AList.delete evictedKey (cache c1)\<rparr>))"

definition get :: "'k \<Rightarrow> int \<Rightarrow> ('k, 'v) LRUCache \<Rightarrow> 'v option \<times> ('k, 'v) LRUCache" where
  "get k now c =
     (case map_of (cache c) k of
        None \<Rightarrow> (None, c\<lparr>misses := misses c + 1\<rparr>)
      | Some a \<Rightarrow>
          (let c1 = c\<lparr>hits := hits c + 1\<rparr>;
               c2 = update_node a
                      (\<lambda>n. n\<lparr>accessCount := accessCount n + 1, lastAccessed := now\<rparr>) c1;
               c3 = moveToFront a c2
           in (Some (node_value (the_node c3 a)), c3)))"

definition put :: "'k \<Rightarrow> 'v \<Rightarrow> int \<Rightarrow> ('k, 'v) LRUCache \<Rightarrow> ('k, 'v) LRUCache" where
  "put k v now c =
     (case map_of (cache c) k of
        Some a \<Rightarrow>
          moveToFront a (update_node a (\<lambda>n. n\<lparr>node_value := v, lastAccessed := now\<rparr>) c)
      | None \<Rightarrow>
          (let c1 = (if int (length (cache c)) \<ge> capacity c then evictLRU c else c);
               a = allocated c1;
               newNode = \<lparr>key = k, node_value = v, prev = None, nxt = head c1,
                          accessCount = 1, lastAccessed = now\<rparr>;
               c2 = c1\<lparr>nodes := (nodes c1)(a \<mapsto> newNode), allocated := a + 1\<rparr>;
               c3 = (case head c2 of
                       Some h \<Rightarrow> update_node h (\<lambda>n. n\<lparr>prev := Some a\<rparr>) c2
                     | None \<Rightarrow> c2);
               c4 = c3\<lparr>head := Some a\<rparr>;
               c5 = (if tail c4 = None then c4\<lparr>tail := Some a\<rparr> else c4)
           in c5\<lparr>cache := AList.update k a (cache c5)\<rparr>))"

definition has :: "('k, 'v) LRUCache \<Rightarrow> 'k \<Rightarrow> bool" where
  "has c k = (map_of (cache c) k \<noteq> None)"

definition keys :: "('k, 'v) LRUCache \<Rightarrow> 'k list" where
  "keys c = map fst (cache c)"

text \<open>\<open>put_all\<close> puts the entries (key, value, time of the call) one after the other.\<close>

fun put_all :: "('k \<times> 'v \<times> int) list \<Rightarrow> ('k, 'v) LRUCache \<Rightarrow> ('k, 'v) LRUCache" where
  "put_all [] c = c"
| "put_all ((k, v, now) # rest) c = put_all rest (put k v now c)"

subsection \<open>The recency list that the pointers represent\<close>

text \<open>
  For the proofs, the linked nodes are read back as a list of addresses, head first.
  \<open>seg h p as q\<close>: in the store \<open>h\<close> the nodes \<open>as\<close> are linked in this order, the first
  one's \<open>prev\<close> is \<open>p\<close> and the last one's \<open>next\<close> is \<open>q\<close>. \<open>lru_inv c as\<close> adds that \<open>head\<close>
  and \<open>tail\<close> are the ends of \<open>as\<close> and that the \<open>Map\<close> holds exactly these nodes, each under
  its key. \<open>recency c ks\<close>: the cache is in such a state and its keys, from most to least
  recently used, are \<open>ks\<close>. \<open>lru_put\<close> and \<open>lru_get\<close> say what \<open>put\<close> and \<open>get\<close> do to that
  list of keys.
\<close>

definition first_or :: "addr option \<Rightarrow> addr list \<Rightarrow> addr option" where
  "first_or q as = (case as of [] \<Rightarrow> q | a # _ \<Rightarrow> Some a)"

definition last_or :: "addr option \<Rightarrow> addr list \<Rightarrow> addr option" where
  "last_or p as = (if as = [] then p else Some (last as))"

fun seg ::
  "(addr \<Rightarrow> ('k, 'v) CacheNode option) \<Rightarrow> addr option \<Rightarrow> addr list \<Rightarrow> addr option \<Rightarrow> bool" where
  "seg h p [] q = True"
| "seg h p (a # as) q =
     (case h a of
        None \<Rightarrow> False
      | Some n \<Rightarrow> prev n = p \<and> nxt n = first_or q as \<and> seg h (Some a) as q)"

definition lru_list :: "('k, 'v) LRUCache \<Rightarrow> addr list \<Rightarrow> bool" where
  "lru_list c as =
     (seg (nodes c) None as None \<and> distinct as \<and> head c = first_or None as \<and>
      tail c = last_or None as)"

definition lru_inv :: "('k, 'v) LRUCache \<Rightarrow> addr list \<Rightarrow> bool" where
  "lru_inv c as =
     (lru_list c as \<and> (\<forall>a \<in> set as. a < allocated c) \<and>
      distinct (map fst (cache c)) \<and> length (cache c) = length as \<and>
      (\<forall>k a. (map_of (cache c) k = Some a) = (a \<in> set as \<and> key (the_node c a) = k)))"

definition rkeys :: "('k, 'v) LRUCache \<Rightarrow> addr list \<Rightarrow> 'k list" where
  "rkeys c as = map (\<lambda>a. key (the_node c a)) as"

definition lru_put :: "int \<Rightarrow> 'k \<Rightarrow> 'k list \<Rightarrow> 'k list" where
  "lru_put cap k ks =
     (if k \<in> set ks then k # remove1 k ks
      else k # (if int (length ks) \<ge> cap then butlast ks else ks))"

definition lru_get :: "'k \<Rightarrow> 'k list \<Rightarrow> 'k list" where
  "lru_get k ks = (if k \<in> set ks then k # remove1 k ks else ks)"

definition recency :: "('k, 'v) LRUCache \<Rightarrow> 'k list \<Rightarrow> bool" where
  "recency c ks = (\<exists>as. lru_inv c as \<and> rkeys c as = ks)"

fun lru_put_all :: "int \<Rightarrow> 'k list \<Rightarrow> 'k list \<Rightarrow> 'k list" where
  "lru_put_all cap [] ks = ks"
| "lru_put_all cap (k # rest) ks = lru_put_all cap rest (lru_put cap k ks)"

section \<open>Statistics (\<open>getStats\<close> of the cache, the semaphore and the scheduler)\<close>

text \<open>
  The ratios are quotients of counters, computed in double precision. \<open>Ratio n d\<close> is the
  double whose exact value is \<open>n / d\<close> (with \<open>d > 0\<close>); a division by zero gives \<open>NaN\<close> or
  an infinity. \<open>/\<close> and \<open>*\<close> round the exact result to the nearest double, a tie to the
  even significand. The counters of a running process stay below \<open>2^53\<close>: they are doubles
  themselves, every quotient of two of them is in the normal range, and every ratio
  printed here is below \<open>10^21\<close>, the range in which \<open>toFixed\<close> prints plain decimal digits.
\<close>

datatype jsnum = Ratio int int | NaN | PosInfinity | NegInfinity

text \<open>The number of binary digits of a positive integer.\<close>

function bit_length :: "int \<Rightarrow> nat" where
  "bit_length n = (if n \<le> 0 then 0 else Suc (bit_length (n div 2)))"
  by pat_completeness auto
termination
  by (relation "measure nat") auto

declare bit_length.simps [simp del]

text \<open>The integer nearest to \<open>n / d\<close>, the even one of two (\<open>d > 0\<close>).\<close>

definition round_half_even :: "int \<Rightarrow> int \<Rightarrow> int" where
  "round_half_even n d =
     (let q = n div d; r = n mod d
      in if 2 * r < d then q else if d < 2 * r then q + 1 else if even q then q else q + 1)"

text \<open>
  The double nearest to \<open>a / b\<close>, for \<open>a > 0\<close> and \<open>b > 0\<close>, as numerator and denominator.
  With \<open>2^e \<le> a / b < 2^(e + 1)\<close> the doubles around \<open>a / b\<close> are the multiples of
  \<open>2^(e - 52)\<close>: 53 significant bits.
\<close>

definition to_double :: "int \<Rightarrow> int \<Rightarrow> int \<times> int" where
  "to_double a b =
     (let k = int (bit_length a) - int (bit_length b);
          e = (if (if 0 \<le> k then b * 2 ^ nat k \<le> a else b \<le> a * 2 ^ nat (- k))
               then k else k - 1);
          u = e - 52
      in if 0 \<le> u then (round_half_even a (b * 2 ^ nat u) * 2 ^ nat u, 1)
         else (round_half_even (a * 2 ^ nat (- u)) b, 2 ^ nat (- u)))"

definition js_quot :: "int \<Rightarrow> int \<Rightarrow> jsnum" where
  "js_quot a b =
     (if a = 0 then Ratio 0 1
      else if 0 < a then (case to_double a b of (n, d) \<Rightarrow> Ratio n d)
      else (case to_double (- a) b of (n, d) \<Rightarrow> Ratio (- n) d))"

text \<open>\<open>a / b\<close> for two counters, and \<open>x * 100\<close> for a double \<open>x\<close>.\<close>

definition js_div :: "int \<Rightarrow> int \<Rightarrow> jsnum" where
  "js_div a b =
     (if b = 0 then (if a = 0 then NaN else if a > 0 then PosInfinity else NegInfinity)
      else if b > 0 then js_quot a b else js_quot (- a) (- b))"

definition js_times100 :: "jsnum \<Rightarrow> jsnum" where
  "js_times100 x = (case x of Ratio a b \<Rightarrow> js_quot (100 * a) b | other \<Rightarrow> other)"

definition digit_char :: "nat \<Rightarrow> char" where
  "digit_char d = ''0123456789'' ! d"

function digits :: "int \<Rightarrow> string" where
  "digits n =
     (if n < 10 then [digit_char (nat n)] else digits (n div 10) @ [digit_char (nat (n mod 10))])"
  by pat_completeness auto
termination
  by (relation "measure nat") auto

declare digits.simps [simp del]

text \<open>
  \<open>x.toFixed(2)\<close> for the double \<open>x = a / b \<ge> 0\<close>: the integer \<open>n\<close> nearest to \<open>100 x\<close> (the
  larger one of two), its digits padded with zeros to three at least, and a point before
  the last two. \<open>toFixed\<close> works on the exact value of the double, as this does.
\<close>

definition fixed2 :: "int \<Rightarrow> int \<Rightarrow> string" where
  "fixed2 a b =
     (let n = (200 * a + b) div (2 * b);
          m = digits n;
          m' = replicate (3 - length m) (CHR ''0'') @ m
      in take (length m' - 2) m' @ ''.'' @ drop (length m' - 2) m')"

definition toFixed2 :: "jsnum \<Rightarrow> string" where
  "toFixed2 x =
     (case x of
        NaN \<Rightarrow> ''NaN''
      | PosInfinity \<Rightarrow> ''Infinity''
      | NegInfinity \<Rightarrow> ''-Infinity''
      | Ratio a b \<Rightarrow> if a < 0 then ''-'' @ fixed2 (- a) b else fixed2 a b)"

text \<open>A field that holds the number \<open>0\<close> on one path and a string on the other.\<close>

datatype js_value = JsNumber int | JsString string

record cache_stats =
  cache_size :: nat
  cache_capacity :: int
  cache_hits :: int
  cache_misses :: int
  hitRate :: string
  cache_utilizationRate :: string

definition cache_getStats :: "('k, 'v) LRUCache \<Rightarrow> cache_stats" where
  "cache_getStats c =
     \<lparr>cache_size = length (cache c), cache_capacity = capacity c,
      cache_hits = hits c, cache_misses = misses c,
      hitRate =
        (if hits c + misses c > 0
         then toFixed2 (js_times100 (js_div (hits c) (hits c + misses c)))
         else ''0'') @ ''%'',
      cache_utilizationRate =
        toFixed2 (js_times100 (js_div (int (length (cache c))) (capacity c))) @ ''%''\<rparr>"

record semaphore_stats =
  available :: int
  sem_capacity :: int
  inUse :: int
  queueLength :: nat
  sem_utilizationRate :: string

definition semaphore_getStats :: "'w Semaphore \<Rightarrow> semaphore_stats" where
  "semaphore_getStats s =
     \<lparr>available = permits s, sem_capacity = maxPermits s,
      inUse = maxPermits s - permits s, queueLength = length (waitQueue s),
      sem_utilizationRate =
        toFixed2 (js_times100 (js_div (maxPermits s - permits s) (maxPermits s))) @ ''%''\<rparr>"

record worker_stats =
  ws_id :: string
  ws_load :: int
  ws_maxLoad :: int
  worker_utilizationRate :: string

record scheduler_stats =
  totalWorkers :: nat
  activeWorkers :: nat
  totalLoad :: int
  totalCapacity :: int
  avgLoad :: js_value
  sched_utilizationRate :: string
  worker_rows :: "worker_stats list"

definition scheduler_getStats :: "RoundRobinScheduler \<Rightarrow> scheduler_stats" where
  "scheduler_getStats s =
     (let sumLoad = sum_list (map load (workers s));
          sumCapacity = sum_list (map maxLoad (workers s))
      in \<lparr>totalWorkers = length (workers s),
          activeWorkers = length (filter active (workers s)),
          totalLoad = sumLoad, totalCapacity = sumCapacity,
          avgLoad =
            (if length (workers s) > 0
             then JsString (toFixed2 (js_div sumLoad (int (length (workers s)))))
             else JsNumber 0),
          sched_utilizationRate =
            (if sumCapacity > 0 then toFixed2 (js_times100 (js_div sumLoad sumCapacity)) @ ''%''
             else ''0%''),
          worker_rows =
            map (\<lambda>w. \<lparr>ws_id = worker_id w, ws_load = load w, ws_maxLoad = maxLoad w,
                       worker_utilizationRate =
                         toFixed2 (js_times100 (js_div (load w) (maxLoad w))) @ ''%''\<rparr>)
              (workers s)\<rparr>)"

text \<open>The shape the snapshot's consumer expects: digits, a point, two digits.\<close>

definition is_digit :: "char \<Rightarrow> bool" where
  "is_digit ch = (ch \<in> set ''0123456789'')"

definition two_decimals :: "string \<Rightarrow> bool" where
  "two_decimals s =
     (case rev (if s \<noteq> [] \<and> hd s = CHR ''-'' then tl s else s) of
        d2 # d1 # dot # ip \<Rightarrow>
          dot = CHR ''.'' \<and> is_digit d1 \<and> is_digit d2 \<and> ip \<noteq> [] \<and> list_all is_digit ip
      | _ \<Rightarrow> False)"

definition percent2 :: "string \<Rightarrow> bool" where
  "percent2 s = (case rev s of p # rest \<Rightarrow> p = CHR ''%'' \<and> two_decimals (rev rest) | [] \<Rightarrow> False)"

section \<open>The socket server (utils/messageQueue.ts, second document)\<close>

record Message =
  msg_id :: string
  senderId :: string
  content :: string
  msg_timestamp :: string

record Thread =
  thread_id :: string
  participants :: "string list"
  messages :: "Message list"

record User =
  user_id :: string
  user_name :: string
  online :: bool
  socketId :: "string option"

record Group =
  group_id :: string
  group_name :: string
  members :: "string list"
  creatorId :: "string option"

text \<open>What the server sends: \<open>socket.emit("error", ...)\<close> and \<open>io.to(socketId).emit("receive-message", ...)\<close>.\<close>

datatype emit = Error_event string string | Receive_message string Message string

text \<open>
  The module's state. A \<open>Thread\<close> object is shared by the \<open>threads\<close> map and the cache, and
  there is one object for each thread id; the cache therefore holds the thread id as the
  reference to it, and the object itself lives in \<open>threads\<close>. \<open>emitted\<close> collects what was sent.
\<close>

record server =
  messageQueue :: "Message PriorityMessageQueue"
  threadCache :: "(string, string) LRUCache"
  connectionSemaphore :: "string Semaphore"
  messageScheduler :: RoundRobinScheduler
  deadlockDetector :: DeadlockDetector
  threads :: "(string \<times> Thread) list"
  users :: "(string \<times> User) list"
  groups :: "(string \<times> Group) list"
  emitted :: "emit list"

definition initial_server :: server where
  "initial_server =
     \<lparr>messageQueue = new_PriorityMessageQueue, threadCache = new_LRUCache 100,
      connectionSemaphore = new_Semaphore 100, messageScheduler = module_scheduler,
      deadlockDetector = new_DeadlockDetector, threads = [], users = [], groups = [],
      emitted = []\<rparr>"

subsection \<open>String helpers\<close>

text \<open>\<open>toLowerCase\<close> on the ASCII letters; \<open>includes\<close> is \<open>sublist\<close>, \<open>startsWith\<close> is \<open>prefix\<close>.\<close>

definition toLowerCase :: "string \<Rightarrow> string" where
  "toLowerCase s =
     map (\<lambda>ch. case map_of (zip ''ABCDEFGHIJKLMNOPQRSTUVWXYZ'' ''abcdefghijklmnopqrstuvwxyz'') ch of
                 Some l \<Rightarrow> l | None \<Rightarrow> ch) s"

fun split_on :: "char \<Rightarrow> string \<Rightarrow> string list" where
  "split_on sep [] = [[]]"
| "split_on sep (ch # rest) =
     (if ch = sep then [] # split_on sep rest
      else (case split_on sep rest of w # ws \<Rightarrow> (ch # w) # ws | [] \<Rightarrow> [[ch]]))"

fun replace_first :: "string \<Rightarrow> string \<Rightarrow> string \<Rightarrow> string" where
  "replace_first pat rep [] = (if pat = [] then rep else [])"
| "replace_first pat rep (ch # rest) =
     (if prefix pat (ch # rest) then rep @ drop (length pat) (ch # rest)
      else ch # replace_first pat rep rest)"

definition classify :: "string \<Rightarrow> MessagePriority" where
  "classify text0 =
     (let lc = toLowerCase text0
      in if sublist ''urgent'' lc \<or> sublist ''emergency'' lc then URGENT
         else if sublist ''important'' lc \<or> prefix ''@'' lc then HIGH
         else NORMAL)"

subsection \<open>The \<open>send-message\<close> handler\<close>

text \<open>Lines 226 to 241: get or create the thread, then push the message onto its log.\<close>

definition thread_for :: "string \<Rightarrow> server \<Rightarrow> server" where
  "thread_for tid s =
     (case map_of (threads s) tid of
        Some th \<Rightarrow> s
      | None \<Rightarrow>
          (let ps = (if prefix ''group-'' tid
                     then (case map_of (groups s) (replace_first ''group-'' '''' tid) of
                             Some g \<Rightarrow> members g
                           | None \<Rightarrow> split_on (CHR ''-'') tid)
                     else split_on (CHR ''-'') tid)
           in s\<lparr>threads := AList.update tid
                  \<lparr>thread_id = tid, participants = ps, messages = []\<rparr> (threads s)\<rparr>))"

definition push_message :: "string \<Rightarrow> Message \<Rightarrow> server \<Rightarrow> server" where
  "push_message tid m s =
     s\<lparr>threads := map (\<lambda>(k, th). if k = tid then (k, th\<lparr>messages := messages th @ [m]\<rparr>)
                                  else (k, th)) (threads s)\<rparr>"

text \<open>
  Lines 247 to 254: one \<open>receive-message\<close> for each participant's socket, a socket id
  at most once. \<open>seen\<close> is the set \<open>emitted\<close> of the source.
\<close>

fun fan_out ::
  "(string \<times> User) list \<Rightarrow> Message \<Rightarrow> string \<Rightarrow> string list \<Rightarrow> string list \<Rightarrow> emit list" where
  "fan_out us m tid seen [] = []"
| "fan_out us m tid seen (userId # rest) =
     (case map_of us userId of
        None \<Rightarrow> fan_out us m tid seen rest
      | Some u \<Rightarrow>
          (case socketId u of
             None \<Rightarrow> fan_out us m tid seen rest
           | Some sid \<Rightarrow>
               if sid \<noteq> [] \<and> sid \<notin> set seen
               then Receive_message sid m tid # fan_out us m tid (sid # seen) rest
               else fan_out us m tid seen rest))"

text \<open>
  The handler. \<open>sock\<close> is the socket the event arrived on; the three times are the three
  readings of \<open>Date.now()\<close> (in \<open>enqueue\<close>'s argument, in \<open>assignTask\<close> and in \<open>put\<close>). An
  exception of \<open>assignTask\<close> leaves the handler where it is thrown.
\<close>

definition send_message ::
  "string \<Rightarrow> string \<Rightarrow> Message \<Rightarrow> int \<times> int \<times> int \<Rightarrow> server \<Rightarrow> js_error \<times> server + server" where
  "send_message sock tid m clock s =
     (case clock of (t_enqueue, t_assign, t_put) \<Rightarrow>
      case requestResource (senderId m) tid (deadlockDetector s) of
        (resourceAcquired, dd) \<Rightarrow>
          (let s1 = s\<lparr>deadlockDetector := dd\<rparr>
           in if \<not> resourceAcquired
              then Inr (s1\<lparr>emitted := emitted s1 @
                          [Error_event sock ''Resource temporarily unavailable'']\<rparr>)
              else
                (let s2 = s1\<lparr>messageQueue :=
                            enqueue (new_QueuedMessage (msg_id m) tid m (classify (content m))
                                       t_enqueue)
                              (messageQueue s1)\<rparr>
                 in case assignTask t_assign (messageScheduler s2) of
                      Inl (err, sch) \<Rightarrow> Inl (err, s2\<lparr>messageScheduler := sch\<rparr>)
                    | Inr (worker, sch) \<Rightarrow>
                        (let s3 = s2\<lparr>messageScheduler := sch\<rparr>;
                             s4 = push_message tid m (thread_for tid s3);
                             s5 = s4\<lparr>threadCache := put tid tid t_put (threadCache s4)\<rparr>;
                             ps = (case map_of (threads s5) tid of
                                     Some th \<Rightarrow> participants th | None \<Rightarrow> []);
                             s6 = s5\<lparr>emitted := emitted s5 @ fan_out (users s5) m tid [] ps\<rparr>;
                             s7 = (case worker of
                                     Some w \<Rightarrow>
                                       s6\<lparr>messageScheduler :=
                                            releaseTask (worker_id w) (messageScheduler s6)\<rparr>
                                   | None \<Rightarrow> s6)
                         in Inr (s7\<lparr>deadlockDetector :=
                                    releaseResource (senderId m) tid (deadlockDetector s7)\<rparr>)))))"

subsection \<open>The \<open>get-os-stats\<close> snapshot\<close>

record os_stats =
  stats_messageQueue :: queue_stats
  stats_threadCache :: cache_stats
  stats_connectionSemaphore :: semaphore_stats
  stats_messageScheduler :: scheduler_stats
  stats_deadlockDetected :: bool

definition get_os_stats :: "server \<Rightarrow> os_stats" where
  "get_os_stats s =
     \<lparr>stats_messageQueue = queue_getStats (messageQueue s),
      stats_threadCache = cache_getStats (threadCache s),
      stats_connectionSemaphore = semaphore_getStats (connectionSemaphore s),
      stats_messageScheduler = scheduler_getStats (messageScheduler s),
      stats_deadlockDetected = detectDeadlock (deadlockDetector s)\<rparr>"

chapter \<open>Results\<close>

section \<open>Semaphore: hand-off and pool invariant (C4, C5)\<close>

lemma acquire_all_free:
  "int (length ws) \<le> permits s \<Longrightarrow>
   acquire_all ws s = (replicate (length ws) True, s\<lparr>permits := permits s - int (length ws)\<rparr>)"
proof (induction ws arbitrary: s)
  case Nil
  then show ?case by simp
next
  case (Cons w ws)
  have pos: "0 < permits s" using Cons.prems by simp
  have "int (length ws) \<le> permits (s\<lparr>permits := permits s - 1\<rparr>)"
    using Cons.prems by simp
  from Cons.IH [OF this] pos show ?case
    by (simp add: acquire_def)
qed

lemma acquire_all_exhausted:
  "permits s \<le> 0 \<Longrightarrow>
   acquire_all ws s = (replicate (length ws) False, s\<lparr>waitQueue := waitQueue s @ ws\<rparr>)"
proof (induction ws arbitrary: s)
  case Nil
  then show ?case by simp
next
  case (Cons w ws)
  have "permits (s\<lparr>waitQueue := waitQueue s @ [w]\<rparr>) \<le> 0" using Cons.prems by simp
  from Cons.IH [OF this] Cons.prems show ?case
    by (simp add: acquire_def)
qed

text \<open>
  C4. A semaphore of capacity \<open>C > 0\<close>: \<open>C\<close> callers acquire at once and leave no permit;
  every later caller is suspended and queued behind the earlier ones; a release then
  resumes the oldest of them and leaves the permit count as it was; a release with nobody
  queued adds one permit, and in every state a release adds a permit exactly when the
  wait queue is empty.
\<close>

theorem C4_semaphore_fifo_handoff:
  fixes ws :: "'w list"
  assumes "0 < C" and "length ws = nat C"
  shows "case acquire_all ws (new_Semaphore C) of (rs, s) \<Rightarrow>
           rs = replicate (nat C) True \<and> availablePermits s = 0 \<and> waitQueue s = [] \<and>
           (\<forall>w later. case acquire_all (w # later) s of (rs', s') \<Rightarrow>
              rs' = replicate (Suc (length later)) False \<and>
              availablePermits s' = 0 \<and> waitQueue s' = w # later \<and>
              release s' = (Some w, s'\<lparr>waitQueue := later\<rparr>) \<and>
              availablePermits (snd (release s')) = availablePermits s') \<and>
           release s = (None, s\<lparr>permits := permits s + 1\<rparr>) \<and>
           (\<forall>t :: 'w Semaphore. availablePermits (snd (release t)) =
              (if waitQueue t = [] then availablePermits t + 1 else availablePermits t))"
proof -
  let ?init = "new_Semaphore C :: 'w Semaphore"
  let ?full = "?init\<lparr>permits := permits ?init - int (length ws)\<rparr>"
  have "int (length ws) \<le> permits ?init"
    using assms by (simp add: new_Semaphore_def)
  then have run: "acquire_all ws ?init = (replicate (length ws) True, ?full)"
    by (rule acquire_all_free)
  have p0: "permits ?full = 0" using assms by (simp add: new_Semaphore_def)
  have q0: "waitQueue ?full = []" by (simp add: new_Semaphore_def)
  have later: "acquire_all (w # later) ?full =
      (replicate (Suc (length later)) False, ?full\<lparr>waitQueue := w # later\<rparr>)" for w later
    using acquire_all_exhausted [of ?full "w # later"] p0 q0 by simp
  have rel: "release ?full = (None, ?full\<lparr>permits := permits ?full + 1\<rparr>)"
    using q0 by (simp add: release_def)
  show ?thesis
    unfolding run prod.case
  proof (intro conjI allI)
    show "replicate (length ws) True = replicate (nat C) True"
      using assms by simp
    show "availablePermits ?full = 0"
      using p0 by (simp add: availablePermits_def)
    show "waitQueue ?full = []" by (rule q0)
    show "release ?full = (None, ?full\<lparr>permits := permits ?full + 1\<rparr>)" by (rule rel)
    show "availablePermits (snd (release t)) =
            (if waitQueue t = [] then availablePermits t + 1 else availablePermits t)"
      for t :: "'w Semaphore"
      by (simp add: release_def availablePermits_def split: list.split)
    fix w later
    show "case acquire_all (w # later) ?full of (rs', s') \<Rightarrow>
            rs' = replicate (Suc (length later)) False \<and>
            availablePermits s' = 0 \<and> waitQueue s' = w # later \<and>
            release s' = (Some w, s'\<lparr>waitQueue := later\<rparr>) \<and>
            availablePermits (snd (release s')) = availablePermits s'"
      unfolding later prod.case using p0
      by (simp add: availablePermits_def release_def)
  qed
qed

theorem C4_semaphore_fifo_handoff_witness:
  "case acquire_all [10, 11 :: nat] (new_Semaphore 2) of (rs, s) \<Rightarrow>
     rs = [True, True] \<and> availablePermits s = 0 \<and> waitQueue s = [] \<and>
     (case acquire_all [12, 13] s of (rs', s') \<Rightarrow>
        rs' = [False, False] \<and> waitQueue s' = [12, 13] \<and>
        release s' = (Some 12, s'\<lparr>waitQueue := [13]\<rparr>))"
  using C4_semaphore_fifo_handoff [of 2 "[10, 11 :: nat]"]
  by (simp add: new_Semaphore_def acquire_def release_def availablePermits_def)

lemma sem_step_inv:
  assumes "pool_inv C st" and "x = Release \<Longrightarrow> 0 < snd st"
  shows "pool_inv C (sem_step x st)"
proof (cases st)
  case (Pair s held)
  show ?thesis
  proof (cases x)
    case (Acquire w)
    with Pair assms(1) show ?thesis
      by (auto simp: pool_inv_def acquire_def)
  next
    case TryAcquire
    with Pair assms(1) show ?thesis
      by (auto simp: pool_inv_def tryAcquire_def)
  next
    case Release
    with Pair assms show ?thesis
      by (cases "waitQueue s") (auto simp: pool_inv_def release_def)
  qed
qed

lemma sem_run_inv:
  "pool_inv C st \<Longrightarrow> paired ops st \<Longrightarrow> pool_inv C (sem_run ops st)"
proof (induction ops arbitrary: st)
  case Nil
  then show ?case by simp
next
  case (Cons x ops)
  from Cons.prems have "pool_inv C (sem_step x st)"
    by (intro sem_step_inv) (auto split: if_splits)
  moreover from Cons.prems have "paired ops (sem_step x st)" by simp
  ultimately show ?case using Cons.IH by simp
qed

text \<open>
  C5, as the code has it. From a fresh semaphore of capacity \<open>C \<ge> 0\<close>, every paired run
  of \<open>acquire\<close>, \<open>tryAcquire\<close> and \<open>release\<close> keeps the permit count within \<open>[0, C]\<close>
  and keeps \<open>available + held = C\<close>.
\<close>

theorem C5_pool_invariant_paired:
  assumes "0 \<le> C" and "paired ops (new_Semaphore C, 0)"
  shows "case sem_run ops (new_Semaphore C, 0) of (s, held) \<Rightarrow>
           0 \<le> availablePermits s \<and> availablePermits s \<le> C \<and>
           availablePermits s + int held = C"
proof -
  have "pool_inv C (new_Semaphore C, 0)"
    using assms(1) by (simp add: pool_inv_def new_Semaphore_def)
  from sem_run_inv [OF this assms(2)] show ?thesis
    by (auto simp: pool_inv_def availablePermits_def split: prod.splits)
qed

theorem C5_pool_invariant_paired_witness:
  "paired [Acquire 1, Acquire 2, TryAcquire, Release, Release] (new_Semaphore 1, 0) \<and>
   (case sem_run [Acquire (1::nat), Acquire 2, TryAcquire, Release, Release] (new_Semaphore 1, 0)
    of (s, held) \<Rightarrow> availablePermits s = 1 \<and> held = 0 \<and> waitQueue s = [] \<and>
         0 \<le> availablePermits s \<and> availablePermits s \<le> 1 \<and>
         availablePermits s + int held = 1)"
proof -
  have p: "paired [Acquire (1::nat), Acquire 2, TryAcquire, Release, Release] (new_Semaphore 1, 0)"
    by (simp add: new_Semaphore_def acquire_def tryAcquire_def release_def)
  from C5_pool_invariant_paired [OF _ p] p show ?thesis
    by (simp add: new_Semaphore_def acquire_def tryAcquire_def release_def availablePermits_def)
qed

text \<open>
  C5 as stated fails: \<open>release\<close> never compares the count with \<open>maxPermits\<close>, so one
  \<open>release\<close> on a fresh semaphore of capacity 1 leaves 2 permits available.
\<close>

theorem C5_release_exceeds_capacity:
  "availablePermits (fst (sem_run [Release] (new_Semaphore 1 :: nat Semaphore, 0))) = 2 \<and>
   \<not> pool_inv 1 (sem_run [Release] (new_Semaphore 1 :: nat Semaphore, 0))"
  by (simp add: new_Semaphore_def release_def availablePermits_def pool_inv_def)

section \<open>RoundRobinScheduler: the cursor after \<open>removeWorker\<close> (C3)\<close>

text \<open>
  C3 does not hold of the code. \<open>removeWorker\<close> filters the array and leaves
  \<open>currentIndex\<close> as it was. On the module's own scheduler, after two assignments the
  cursor is 2; removing \<open>worker-3\<close> leaves two workers and the cursor at 2, outside
  the array; the next \<open>assignTask\<close> reads \<open>workers[2]\<close>, which is \<open>undefined\<close>, and throws.
  \<open>getNextWorker\<close> guards the same read and returns \<open>null\<close> there.
\<close>

theorem C3_removeWorker_leaves_cursor_outside:
  "(let s1 = sched_of (assignTask 1 module_scheduler);
        s2 = sched_of (assignTask 2 s1);
        s3 = removeWorker ''worker-3'' s2
    in map worker_id (workers s3) = [''worker-1'', ''worker-2''] \<and>
       currentIndex s3 = 2 \<and>
       \<not> currentIndex s3 < length (workers s3) \<and>
       getNextWorker s3 = None \<and>
       assignTask 3 s3 = Inl (TypeError, s3\<lparr>currentIndex := 1\<rparr>))"
  by code_simp

section \<open>PriorityMessageQueue: retries and dispatch order (C2, C6)\<close>


lemma enqueue_busy:
  "processing q \<Longrightarrow>
   enqueue m q =
     q\<lparr>queues := (queues q)(priority m := sort_key timestamp (queues q (priority m) @ [m]))\<rparr>"
  by (simp add: enqueue_def processQueue_def)

lemma enqueue_idle:
  assumes "queue_ok q" "sending q = None"
  shows "enqueue m q = q\<lparr>processing := True, sending := Some m\<rparr>"
proof -
  from assms have e: "queues q = (\<lambda>p. [])" and np: "\<not> processing q"
    by (simp_all add: queue_ok_def)
  let ?q1 = "q\<lparr>queues := (queues q)(priority m := [m]), processing := True\<rparr>"
  have "dequeue ?q1 = (Some m, ?q1\<lparr>queues := (queues ?q1)(priority m := [])\<rparr>)"
    by (cases "priority m") (simp_all add: dequeue_def e)
  moreover have "(\<lambda>p. [])(priority m := []) = (\<lambda>p. [] :: 'a QueuedMessage list)"
    by auto
  ultimately have "drain ?q1 = q\<lparr>processing := True, sending := Some m\<rparr>"
    using e by (simp add: drain_def)
  then show ?thesis using e np by (simp add: enqueue_def processQueue_def)
qed




lemma queue_ok_idle_pending: "queue_ok q \<Longrightarrow> sending q = None \<Longrightarrow> pending q = {#}"
  by (simp add: queue_ok_def pending_def)



lemma run_queue_Resolved_step:
  "sending q \<noteq> None \<Longrightarrow>
   run_queue (\<lambda>m. Resolved) q =
   run_queue (\<lambda>m. Resolved)
     (drain (q\<lparr>sending := None, delivered := delivered q @ [the (sending q)]\<rparr>))"
  by (subst run_queue.simps) (auto simp: settle_def)

lemma run_queue_idle: "sending q = None \<Longrightarrow> run_queue send q = q"
  by (subst run_queue.simps) simp





text \<open>
  C6, as the code has it. While the drain is suspended on the send of some message \<open>m0\<close>
  and the buckets are empty, LOW@t1, URGENT@t2, NORMAL@t3, URGENT@t4 are enqueued
  (\<open>t1 < t2 < t3 < t4\<close>). They wait in their buckets, and the drain then delivers \<open>m0\<close> and
  after it URGENT@t2, URGENT@t4, NORMAL@t3, LOW@t1.
\<close>

theorem C6_priority_order_while_draining:
  assumes busy: "processing q" "sending q = Some m0" "queues q = (\<lambda>p. [])"
    and pr: "priority l1 = LOW" "priority u2 = URGENT" "priority n3 = NORMAL" "priority u4 = URGENT"
    and ts: "timestamp l1 < timestamp u2" "timestamp u2 < timestamp n3" "timestamp n3 < timestamp u4"
  shows "let q4 = enqueue u4 (enqueue n3 (enqueue u2 (enqueue l1 q)));
             qe = run_queue (\<lambda>m. Resolved) q4
         in sending q4 = Some m0 \<and> queues q4 URGENT = [u2, u4] \<and> queues q4 HIGH = [] \<and>
            queues q4 NORMAL = [n3] \<and> queues q4 LOW = [l1] \<and>
            delivered qe = delivered q @ [m0, u2, u4, n3, l1] \<and>
            queues qe = (\<lambda>p. []) \<and> sending qe = None \<and> \<not> processing qe"
proof -
  let ?q4 = "enqueue u4 (enqueue n3 (enqueue u2 (enqueue l1 q)))"
  have q4: "?q4 = q\<lparr>queues := (\<lambda>p. [])(LOW := [l1], URGENT := [u2, u4], NORMAL := [n3])\<rparr>"
    using busy pr ts by (simp add: enqueue_busy fun_upd_twist)
  show ?thesis
    unfolding Let_def q4 using busy
    by (simp add: run_queue_Resolved_step run_queue_idle drain_def dequeue_def fun_upd_twist)
       (simp add: fun_eq_iff)
qed

theorem C6_priority_order_while_draining_witness:
  "(let q = enqueue (new_QueuedMessage ''m0'' ''t'' () HIGH 0) new_PriorityMessageQueue;
        q4 = enqueue (new_QueuedMessage ''u4'' ''t'' () URGENT 4)
               (enqueue (new_QueuedMessage ''n3'' ''t'' () NORMAL 3)
                 (enqueue (new_QueuedMessage ''u2'' ''t'' () URGENT 2)
                   (enqueue (new_QueuedMessage ''l1'' ''t'' () LOW 1) q)));
        qe = run_queue (\<lambda>m. Resolved) q4
    in processing q \<and> sending q = Some (new_QueuedMessage ''m0'' ''t'' () HIGH 0) \<and>
       map qm_id (queues q4 URGENT) = [''u2'', ''u4''] \<and>
       map qm_id (delivered qe) = [''m0'', ''u2'', ''u4'', ''n3'', ''l1''])"
proof -
  let ?q = "enqueue (new_QueuedMessage ''m0'' ''t'' () HIGH 0) new_PriorityMessageQueue"
  have q: "?q = new_PriorityMessageQueue
             \<lparr>processing := True, sending := Some (new_QueuedMessage ''m0'' ''t'' () HIGH 0)\<rparr>"
    by (rule enqueue_idle) (simp_all add: queue_ok_def new_PriorityMessageQueue_def)
  have h: "processing ?q" "sending ?q = Some (new_QueuedMessage ''m0'' ''t'' () HIGH 0)"
    "queues ?q = (\<lambda>p. [])"
    unfolding q by (simp_all add: new_PriorityMessageQueue_def)
  from C6_priority_order_while_draining
    [OF h, of "new_QueuedMessage ''l1'' ''t'' () LOW 1" "new_QueuedMessage ''u2'' ''t'' () URGENT 2"
       "new_QueuedMessage ''n3'' ''t'' () NORMAL 3" "new_QueuedMessage ''u4'' ''t'' () URGENT 4"]
  have "let q4 = enqueue (new_QueuedMessage ''u4'' ''t'' () URGENT 4)
               (enqueue (new_QueuedMessage ''n3'' ''t'' () NORMAL 3)
                 (enqueue (new_QueuedMessage ''u2'' ''t'' () URGENT 2)
                   (enqueue (new_QueuedMessage ''l1'' ''t'' () LOW 1) ?q)));
        qe = run_queue (\<lambda>m. Resolved) q4
    in queues q4 URGENT = [new_QueuedMessage ''u2'' ''t'' () URGENT 2,
                           new_QueuedMessage ''u4'' ''t'' () URGENT 4] \<and>
       delivered qe = delivered ?q @
         [new_QueuedMessage ''m0'' ''t'' () HIGH 0, new_QueuedMessage ''u2'' ''t'' () URGENT 2,
          new_QueuedMessage ''u4'' ''t'' () URGENT 4, new_QueuedMessage ''n3'' ''t'' () NORMAL 3,
          new_QueuedMessage ''l1'' ''t'' () LOW 1]"
    by (simp add: new_QueuedMessage_def Let_def)
  moreover have "delivered ?q = []" unfolding q by (simp add: new_PriorityMessageQueue_def)
  ultimately show ?thesis using h(1,2)
    by (simp add: Let_def) (simp add: new_QueuedMessage_def)
qed

text \<open>
  C6 as stated fails on an idle queue: the first \<open>enqueue\<close> starts the drain, which
  dequeues LOW@t1 at once, before the other three arrive. The delivery order is
  LOW@t1, URGENT@t2, URGENT@t4, NORMAL@t3.
\<close>

theorem C6_idle_queue_sends_first_message_first:
  "(let q1 = enqueue (new_QueuedMessage ''l1'' ''t'' () LOW 1) new_PriorityMessageQueue;
        q4 = enqueue (new_QueuedMessage ''u4'' ''t'' () URGENT 4)
               (enqueue (new_QueuedMessage ''n3'' ''t'' () NORMAL 3)
                 (enqueue (new_QueuedMessage ''u2'' ''t'' () URGENT 2) q1));
        qe = run_queue (\<lambda>m. Resolved) q4
    in map qm_id (case sending q1 of None \<Rightarrow> [] | Some m \<Rightarrow> [m]) = [''l1''] \<and>
       map qm_id (delivered qe) = [''l1'', ''u2'', ''u4'', ''n3''] \<and>
       map qm_id (delivered qe) \<noteq> [''u2'', ''u4'', ''n3'', ''l1''])"
  by code_simp

section \<open>DeadlockDetector: the search finds every cycle\<close>










section \<open>DeadlockDetector: refused requests (C7, C9)\<close>

lemma map_of_modify:
  "map_of (map (\<lambda>(k', r). if k' = k then (k', f r) else (k', r)) xs) x =
   (if x = k then map_option f (map_of xs k) else map_of xs x)"
  by (induction xs) auto

lemma resources_modify_resource [simp]:
  "map_of (resources (modify_resource k f d)) x =
   (if x = k then map_option f (map_of (resources d) k) else map_of (resources d) x)"
  "processes (modify_resource k f d) = processes d"
  by (simp_all add: modify_resource_def map_of_modify)

lemma processes_modify_process [simp]:
  "map_of (processes (modify_process k f d)) x =
   (if x = k then map_option f (map_of (processes d) k) else map_of (processes d) x)"
  "resources (modify_process k f d) = resources d"
  by (simp_all add: modify_process_def map_of_modify)




lemma register_ids: "ids_match_keys d \<Longrightarrow> ids_match_keys (register P R d)"
  by (auto simp: register_def Let_def ids_match_keys_def split: option.splits)



















lemma ids_match_keys_new: "ids_match_keys new_DeadlockDetector"
  by (simp add: ids_match_keys_def new_DeadlockDetector_def)

lemma ids_match_keys_modify:
  "ids_match_keys d \<Longrightarrow> (\<And>r. resource_id (f r) = resource_id r) \<Longrightarrow>
   (\<And>p. process_id (h p) = process_id p) \<Longrightarrow>
   ids_match_keys (modify_process k h (modify_resource k' f d))"
  by (auto simp: ids_match_keys_def modify_process_def modify_resource_def)

lemma ids_match_keys_requestResource:
  "ids_match_keys d \<Longrightarrow> ids_match_keys (snd (requestResource P R d))"
  by (auto simp: requestResource_def Let_def grant_def enter_wait_def retract_wait_def
      intro!: ids_match_keys_modify register_ids)

lemma ids_match_keys_releaseResource:
  "ids_match_keys d \<Longrightarrow> ids_match_keys (releaseResource P R d)"
  by (auto simp: releaseResource_def Let_def ids_match_keys_def modify_process_def
      modify_resource_def split: option.splits list.splits)








section \<open>LRUCache: pointer structure and eviction order (C1)\<close>

lemma first_or_simps [simp]:
  "first_or q [] = q" "first_or q (a # as) = Some a"
  "first_or q (xs @ ys) = first_or (first_or q ys) xs"
  by (simp_all add: first_or_def split: list.splits)

lemma last_or_simps [simp]:
  "last_or p [] = p" "last_or p (a # as) = last_or (Some a) as"
  "last_or p (xs @ [a]) = Some a"
  by (simp_all add: last_or_def)

lemma last_or_append: "last_or p (xs @ ys) = last_or (last_or p xs) ys"
  by (induction xs arbitrary: p) simp_all

lemma seg_append:
  "seg h p (xs @ ys) q = (seg h p xs (first_or q ys) \<and> seg h (last_or p xs) ys q)"
  by (induction xs arbitrary: p) (auto split: option.splits)

lemma seg_frame: "a \<notin> set as \<Longrightarrow> seg (h(a := x)) p as q = seg h p as q"
  by (induction as arbitrary: p) (auto split: option.splits)

lemma seg_allocated: "seg h p as q \<Longrightarrow> a \<in> set as \<Longrightarrow> h a \<noteq> None"
  by (induction as arbitrary: p) (auto split: option.splits)

lemma seg_set_first:
  "seg h p (a # as) q \<Longrightarrow> a \<notin> set as \<Longrightarrow>
   seg (h(a \<mapsto> (the (h a))\<lparr>prev := p'\<rparr>)) p' (a # as) q"
  by (auto simp: seg_frame split: option.splits)

lemma seg_set_last:
  "seg h p (as @ [a]) q \<Longrightarrow> a \<notin> set as \<Longrightarrow>
   seg (h(a \<mapsto> (the (h a))\<lparr>nxt := q'\<rparr>)) p (as @ [a]) q'"
  by (auto simp: seg_append seg_frame split: option.splits)

lemma the_node_update_node [simp]:
  "the_node (update_node a f c) b = (if b = a then f (the_node c a) else the_node c b)"
  by (simp add: update_node_def the_node_def)

lemma update_node_fields [simp]:
  "head (update_node a f c) = head c" "tail (update_node a f c) = tail c"
  "cache (update_node a f c) = cache c" "capacity (update_node a f c) = capacity c"
  "allocated (update_node a f c) = allocated c"
  "hits (update_node a f c) = hits c" "misses (update_node a f c) = misses c"
  by (simp_all add: update_node_def)

lemma the_node_field_upd [simp]:
  "the_node (c\<lparr>tail := t\<rparr>) = the_node c" "the_node (c\<lparr>head := t\<rparr>) = the_node c"
  "the_node (c\<lparr>cache := m\<rparr>) = the_node c" "the_node (c\<lparr>hits := i\<rparr>) = the_node c"
  "the_node (c\<lparr>misses := i\<rparr>) = the_node c"
  by (simp_all add: the_node_def fun_eq_iff)

lemma moveToFront_list:
  assumes l: "lru_list c as" and a: "a \<in> set as"
  shows "lru_list (moveToFront a c) (a # remove1 a as)"
proof (cases "head c = Some a")
  case True
  with l a have "as = a # remove1 a as"
    by (cases as) (auto simp: lru_list_def)
  with l True show ?thesis by (simp add: moveToFront_def)
next
  case False
  let ?h = "nodes c"
  from l have d: "distinct as" and s: "seg ?h None as None"
    and hd: "head c = first_or None as" and tl: "tail c = last_or None as"
    by (simp_all add: lru_list_def)
  from a obtain xs ys where as: "as = xs @ a # ys" by (auto dest: split_list)
  with d have nin: "a \<notin> set xs" "a \<notin> set ys" "distinct xs" "distinct ys" "set xs \<inter> set ys = {}"
    by auto
  from False hd as have "xs \<noteq> []" by (cases xs) auto
  then obtain x0 xs' where xs: "xs = x0 # xs'" by (cases xs) auto
  from \<open>xs \<noteq> []\<close> obtain xs0 p where xsp: "xs = xs0 @ [p]" by (cases xs rule: rev_cases) auto
  have pin: "p \<in> set xs" "x0 \<in> set xs"
  proof -
    show "p \<in> set xs" by (simp add: xsp)
    show "x0 \<in> set xs" by (simp add: xs)
  qed
  have "p \<notin> set xs0" using nin(3) unfolding xsp by simp
  moreover have "x0 \<notin> set xs'" using nin(3) unfolding xs by simp
  ultimately have pa: "p \<noteq> a" "x0 \<noteq> a" "p \<notin> set ys" "p \<notin> set xs0" "x0 \<notin> set xs'"
    "x0 \<notin> set ys"
    using nin(1,5) pin by auto
  from s have s0: "seg ?h None xs (Some a)" "seg ?h (Some p) (a # ys) None"
    unfolding as seg_append by (simp_all add: xsp)
  from s0(2) obtain na where na: "?h a = Some na" "prev na = Some p" "nxt na = first_or None ys"
    "seg ?h (Some a) ys None"
    by (auto split: option.splits)
  have tn: "the_node c a = na" using na(1) by (simp add: the_node_def)
  \<comment> \<open>the predecessor now points past the node\<close>
  define h1 where "h1 = ?h(p \<mapsto> (the (?h p))\<lparr>nxt := first_or None ys\<rparr>)"
  have c1: "update_node p (\<lambda>n. n\<lparr>nxt := nxt (the_node c a)\<rparr>) c = c\<lparr>nodes := h1\<rparr>"
    by (simp add: update_node_def h1_def tn na the_node_def)
  have s1: "seg h1 None xs (first_or None ys)" "seg h1 (Some a) ys None" "h1 a = Some na"
    unfolding h1_def using s0(1) na pa
    by (auto simp: xsp seg_frame intro: seg_set_last)
  \<comment> \<open>the successor, if any, points back at the predecessor\<close>
  define h2 where "h2 = (case ys of [] \<Rightarrow> h1 | y # _ \<Rightarrow> h1(y \<mapsto> (the (h1 y))\<lparr>prev := Some p\<rparr>))"
  have s2: "seg h2 None (xs @ ys) None" "h2 a = Some na"
  proof -
    show "h2 a = Some na" using s1(3) nin(2) by (auto simp: h2_def split: list.splits)
    show "seg h2 None (xs @ ys) None"
    proof (cases ys)
      case Nil
      with s1 show ?thesis by (simp add: h2_def)
    next
      case (Cons y ys')
      with nin have y: "y \<notin> set ys'" "y \<notin> set xs" by auto
      have "seg h2 (Some p) ys None"
        unfolding h2_def Cons list.case using s1(2) y(1)
        unfolding Cons by (rule seg_set_first)
      moreover have "seg h2 None xs (first_or None ys)"
        unfolding h2_def Cons list.case using s1(1) y(2) by (simp add: seg_frame Cons)
      moreover have "last_or None xs = Some p" by (simp add: xsp)
      ultimately show ?thesis by (simp only: seg_append)
    qed
  qed
  define h4 where "h4 = h2(a \<mapsto> na\<lparr>prev := None, nxt := Some x0\<rparr>)"
  define h5 where "h5 = h4(x0 \<mapsto> (the (h4 x0))\<lparr>prev := Some a\<rparr>)"
  have mtf: "moveToFront a c =
      c\<lparr>nodes := h5, head := Some a, tail := last_or (Some p) ys\<rparr>"
  proof -
    have t: "tail c = last_or (Some a) ys" using tl by (simp add: as last_or_append xsp)
    have ta: "(last_or (Some a) ys = Some a) = (ys = [])"
      using nin(2) by (auto simp: last_or_def)
    have hc: "head c = Some x0" using hd by (simp add: as xs)
    have e1: "(case prev (the_node c a) of
                 Some p \<Rightarrow> update_node p (\<lambda>n. n\<lparr>nxt := nxt (the_node c a)\<rparr>) c
               | None \<Rightarrow> c) = c\<lparr>nodes := h1\<rparr>"
      using c1 by (simp add: tn na)
    let ?c1 = "c\<lparr>nodes := h1\<rparr>"
    have tn1: "the_node ?c1 a = na" using s1(3) by (simp add: the_node_def)
    have e2: "(case nxt (the_node ?c1 a) of
                 Some x \<Rightarrow> update_node x (\<lambda>n. n\<lparr>prev := prev (the_node ?c1 a)\<rparr>) ?c1
               | None \<Rightarrow> ?c1) = c\<lparr>nodes := h2\<rparr>"
      unfolding tn1 na by (cases ys) (simp_all add: h2_def update_node_def the_node_def)
    let ?c2 = "c\<lparr>nodes := h2\<rparr>"
    have tn2: "the_node ?c2 a = na" using s2(2) by (simp add: the_node_def)
    have e3: "(if tail ?c2 = Some a then ?c2\<lparr>tail := prev (the_node ?c2 a)\<rparr> else ?c2) =
              c\<lparr>nodes := h2, tail := last_or (Some p) ys\<rparr>"
      unfolding tn2 na using t ta by (cases "ys = []") (auto simp: last_or_def)
    let ?c3 = "c\<lparr>nodes := h2, tail := last_or (Some p) ys\<rparr>"
    have e4: "update_node a (\<lambda>n. n\<lparr>prev := None, nxt := head ?c3\<rparr>) ?c3 =
              c\<lparr>nodes := h4, tail := last_or (Some p) ys\<rparr>"
      using s2(2) hc by (simp add: update_node_def the_node_def h4_def)
    let ?c4 = "c\<lparr>nodes := h4, tail := last_or (Some p) ys\<rparr>"
    have e5: "(case head ?c4 of
                 Some h \<Rightarrow> update_node h (\<lambda>n. n\<lparr>prev := Some a\<rparr>) ?c4
               | None \<Rightarrow> ?c4) = c\<lparr>nodes := h5, tail := last_or (Some p) ys\<rparr>"
      using hc by (simp add: update_node_def the_node_def h5_def)
    have nt: "last_or (Some p) ys \<noteq> None" by (simp add: last_or_def)
    show ?thesis
      unfolding moveToFront_def Let_def using False
      by (simp only: if_False e1 e2 e3 e4 e5) (simp add: nt)
  qed
  have "seg h5 None (a # xs @ ys) None"
  proof -
    have "seg h4 None (xs @ ys) None"
      unfolding h4_def using s2(1) nin by (simp add: seg_frame)
    then have "seg h5 (Some a) (xs @ ys) None"
      unfolding h5_def xs append_Cons using pa nin(5) xs by (intro seg_set_first) auto
    moreover have "h5 a = Some (na\<lparr>prev := None, nxt := Some x0\<rparr>)"
      using pa by (simp add: h5_def h4_def)
    ultimately show ?thesis by (simp add: xs)
  qed
  moreover have "distinct (a # xs @ ys)" using nin by auto
  moreover have "remove1 a as = xs @ ys" using nin by (simp add: as remove1_append)
  moreover have "last_or (Some p) ys = last_or None (a # xs @ ys)"
    by (simp add: last_or_append xsp)
  ultimately show ?thesis
    unfolding mtf by (simp add: lru_list_def)
qed

lemma moveToFront_fields [simp]:
  "cache (moveToFront a c) = cache c" "capacity (moveToFront a c) = capacity c"
  "allocated (moveToFront a c) = allocated c"
  "hits (moveToFront a c) = hits c" "misses (moveToFront a c) = misses c"
  by (simp_all add: moveToFront_def Let_def split: option.splits)

lemma moveToFront_key [simp]: "key (the_node (moveToFront a c) b) = key (the_node c b)"
  by (simp add: moveToFront_def Let_def split: option.splits)

lemma seg_same_links:
  "h a = Some n \<Longrightarrow> prev n' = prev n \<Longrightarrow> nxt n' = nxt n \<Longrightarrow>
   seg (h(a \<mapsto> n')) p as q = seg h p as q"
  by (induction as arbitrary: p) (auto split: option.splits)

lemma lru_list_update_node:
  assumes "lru_list c as" "a \<in> set as" "\<And>n. prev (f n) = prev n \<and> nxt (f n) = nxt n"
  shows "lru_list (update_node a f c) as"
proof -
  from assms(1,2) obtain n where n: "nodes c a = Some n"
    using seg_allocated [of "nodes c" None as None a] by (auto simp: lru_list_def)
  then have "the_node c a = n" by (simp add: the_node_def)
  with n assms show ?thesis
    by (simp add: lru_list_def update_node_def seg_same_links)
qed

lemma lru_inv_keys_inj:
  assumes "lru_inv c as" "a \<in> set as" "b \<in> set as" "key (the_node c a) = key (the_node c b)"
  shows "a = b"
proof -
  from assms have "map_of (cache c) (key (the_node c a)) = Some a"
    "map_of (cache c) (key (the_node c a)) = Some b"
    by (auto simp: lru_inv_def)
  then show ?thesis by simp
qed

lemma map_remove1_inj:
  "inj_on f (set xs) \<Longrightarrow> a \<in> set xs \<Longrightarrow> map f (remove1 a xs) = remove1 (f a) (map f xs)"
  by (induction xs) (auto simp: inj_on_def)

lemma lru_inv_touch:
  assumes inv: "lru_inv c as" and a: "a \<in> set as"
    and f: "\<And>n. prev (f n) = prev n \<and> nxt (f n) = nxt n \<and> key (f n) = key n"
  shows "lru_inv (moveToFront a (update_node a f c)) (a # remove1 a as)"
    and "rkeys (moveToFront a (update_node a f c)) (a # remove1 a as) =
         key (the_node c a) # remove1 (key (the_node c a)) (rkeys c as)"
proof -
  let ?c1 = "update_node a f c" and ?c2 = "moveToFront a (update_node a f c)"
  have k1: "key (the_node ?c1 b) = key (the_node c b)" for b using f by simp
  have l1: "lru_list ?c1 as"
    using inv a f by (intro lru_list_update_node) (auto simp: lru_inv_def)
  have l2: "lru_list ?c2 (a # remove1 a as)" by (rule moveToFront_list [OF l1 a])
  from inv have d: "distinct as" by (simp add: lru_inv_def lru_list_def)
  have s: "set (a # remove1 a as) = set as" using a d by auto
  have len: "length (a # remove1 a as) = length as"
    using a by (simp add: length_remove1) (cases as, auto)
  show "lru_inv ?c2 (a # remove1 a as)"
    unfolding lru_inv_def using inv l2 s len
    by (simp only: moveToFront_fields moveToFront_key k1 update_node_fields)
       (simp add: lru_inv_def)
  have "inj_on (\<lambda>a. key (the_node c a)) (set as)"
    using lru_inv_keys_inj [OF inv] by (auto simp: inj_on_def)
  from map_remove1_inj [OF this a]
  have r: "map (\<lambda>a. key (the_node c a)) (remove1 a as) =
           remove1 (key (the_node c a)) (map (\<lambda>a. key (the_node c a)) as)" .
  have kk: "(\<lambda>b. key (the_node ?c2 b)) = (\<lambda>b. key (the_node c b))"
    using f by (auto simp: fun_eq_iff)
  show "rkeys ?c2 (a # remove1 a as) =
         key (the_node c a) # remove1 (key (the_node c a)) (rkeys c as)"
    unfolding rkeys_def kk using r by simp
qed

lemma length_delete_distinct:
  "distinct (map fst al) \<Longrightarrow> map_of al k = Some a \<Longrightarrow> Suc (length (AList.delete k al)) = length al"
  by (induction al) (auto simp: delete_notin_dom rev_image_eqI delete_id)

lemma evictLRU_inv:
  assumes inv: "lru_inv c as"
  shows "lru_inv (evictLRU c) (butlast as)"
    and "rkeys (evictLRU c) (butlast as) = butlast (rkeys c as)"
    and "capacity (evictLRU c) = capacity c" and "allocated (evictLRU c) = allocated c"
proof -
  from inv have l: "seg (nodes c) None as None" "distinct as" "head c = first_or None as"
    "tail c = last_or None as" by (simp_all add: lru_inv_def lru_list_def)
  have "lru_inv (evictLRU c) (butlast as) \<and> rkeys (evictLRU c) (butlast as) = butlast (rkeys c as) \<and>
        capacity (evictLRU c) = capacity c \<and> allocated (evictLRU c) = allocated c"
  proof (cases as rule: rev_cases)
    case Nil
    with l inv show ?thesis by (simp add: evictLRU_def rkeys_def)
  next
    case (snoc xs t)
    with l have t: "tail c = Some t" and tx: "t \<notin> set xs" and dx: "distinct xs" by simp_all
    from l(1) have sx: "seg (nodes c) None xs (Some t)"
      and st: "seg (nodes c) (last_or None xs) [t] None"
      unfolding snoc seg_append by simp_all
    from st obtain nt where nt: "nodes c t = Some nt" "prev nt = last_or None xs"
      by (auto split: option.splits)
    have tn: "the_node c t = nt" using nt(1) by (simp add: the_node_def)
    let ?k = "key nt"
    from inv have m: "\<And>k a. (map_of (cache c) k = Some a) = (a \<in> set as \<and> key (the_node c a) = k)"
      by (simp add: lru_inv_def)
    have mk: "map_of (cache c) ?k = Some t" using m [of ?k t] tn snoc by simp
    have other: "\<And>a. a \<in> set xs \<Longrightarrow> key (the_node c a) \<noteq> ?k"
    proof
      fix a assume "a \<in> set xs" "key (the_node c a) = ?k"
      with m [of ?k a] mk snoc tx show False by auto
    qed
    define c1 where "c1 = (case prev (the_node c t) of
         Some p \<Rightarrow> (update_node p (\<lambda>n. n\<lparr>nxt := None\<rparr>) c)\<lparr>tail := Some p\<rparr>
       | None \<Rightarrow> c\<lparr>head := None, tail := None\<rparr>)"
    have ev: "evictLRU c = c1\<lparr>cache := AList.delete ?k (cache c1)\<rparr>"
      by (simp add: evictLRU_def t Let_def c1_def tn)
    have c1f: "cache c1 = cache c" "capacity c1 = capacity c" "allocated c1 = allocated c"
      "\<And>b. key (the_node c1 b) = key (the_node c b)"
      by (simp_all add: c1_def split: option.splits)
    have l1: "lru_list c1 xs"
    proof (cases xs rule: rev_cases)
      case Nil
      then show ?thesis using nt by (simp add: c1_def tn lru_list_def)
    next
      case (snoc xs0 p)
      with dx have p: "p \<notin> set xs0" by simp
      have "seg ((nodes c)(p \<mapsto> (the (nodes c p))\<lparr>nxt := None\<rparr>)) None (xs0 @ [p]) None"
        using sx p unfolding snoc by (rule seg_set_last)
      moreover have "head c = first_or None xs"
        using l(3) \<open>as = xs @ [t]\<close> snoc by simp
      ultimately show ?thesis
        using nt dx snoc by (simp add: c1_def tn lru_list_def update_node_def the_node_def)
    qed
    have "lru_inv (c1\<lparr>cache := AList.delete ?k (cache c1)\<rparr>) xs"
      unfolding lru_inv_def
    proof (intro conjI allI)
      show "lru_list (c1\<lparr>cache := AList.delete ?k (cache c1)\<rparr>) xs"
        using l1 by (simp add: lru_list_def)
      show "\<forall>a\<in>set xs. a < allocated (c1\<lparr>cache := AList.delete ?k (cache c1)\<rparr>)"
        using inv snoc by (simp add: c1f lru_inv_def)
      show "distinct (map fst (cache (c1\<lparr>cache := AList.delete ?k (cache c1)\<rparr>)))"
        using inv by (simp add: c1f lru_inv_def distinct_delete)
      show "length (cache (c1\<lparr>cache := AList.delete ?k (cache c1)\<rparr>)) = length xs"
        using inv snoc length_delete_distinct [OF _ mk] by (simp add: c1f lru_inv_def)
      fix k a
      show "(map_of (cache (c1\<lparr>cache := AList.delete ?k (cache c1)\<rparr>)) k = Some a) =
            (a \<in> set xs \<and> key (the_node (c1\<lparr>cache := AList.delete ?k (cache c1)\<rparr>) a) = k)"
        using m [of k a] other [of a] tn snoc
        by (auto simp: c1f delete_conv)
    qed
    moreover have "rkeys (c1\<lparr>cache := AList.delete ?k (cache c1)\<rparr>) xs = butlast (rkeys c as)"
      by (simp add: rkeys_def c1f snoc)
    ultimately show ?thesis by (simp add: ev snoc c1f)
  qed
  then show "lru_inv (evictLRU c) (butlast as)"
    and "rkeys (evictLRU c) (butlast as) = butlast (rkeys c as)"
    and "capacity (evictLRU c) = capacity c" and "allocated (evictLRU c) = allocated c"
    by simp_all
qed

lemma recency_new: "recency (new_LRUCache N) []"
  unfolding recency_def
  by (rule exI [of _ "[]"]) (simp add: lru_inv_def lru_list_def rkeys_def new_LRUCache_def)

lemma lru_inv_has: "lru_inv c as \<Longrightarrow> has c k = (k \<in> set (rkeys c as))"
  by (auto simp: has_def lru_inv_def rkeys_def)

lemma recency_has: "recency c ks \<Longrightarrow> has c k = (k \<in> set ks)"
  by (auto simp: recency_def lru_inv_has)

lemma lru_inv_length: "lru_inv c as \<Longrightarrow> length (cache c) = length (rkeys c as)"
  by (simp add: lru_inv_def rkeys_def)

lemma update_new_key: "k \<notin> fst ` set al \<Longrightarrow> AList.update k v al = al @ [(k, v)]"
  by (induction al) auto

lemma insert_front_inv:
  fixes c1 :: "('k, 'v) LRUCache" and k :: 'k and v :: 'v and now :: int
  assumes inv: "lru_inv c1 as" and new: "\<not> has c1 k"
  defines "a \<equiv> allocated c1"
  defines "c2 \<equiv> c1\<lparr>nodes := (nodes c1)(a \<mapsto> \<lparr>key = k, node_value = v, prev = None,
                     nxt = head c1, accessCount = 1, lastAccessed = now\<rparr>), allocated := a + 1\<rparr>"
  defines "c3 \<equiv> (case head c2 of
                    Some h \<Rightarrow> update_node h (\<lambda>n. n\<lparr>prev := Some a\<rparr>) c2 | None \<Rightarrow> c2)"
  defines "c4 \<equiv> c3\<lparr>head := Some a\<rparr>"
  defines "c5 \<equiv> (if tail c4 = None then c4\<lparr>tail := Some a\<rparr> else c4)"
  defines "c6 \<equiv> c5\<lparr>cache := AList.update k a (cache c5)\<rparr>"
  shows "lru_inv c6 (a # as)" and "rkeys c6 (a # as) = k # rkeys c1 as"
    and "capacity c6 = capacity c1"
proof -
  from inv have l: "seg (nodes c1) None as None" "distinct as" "head c1 = first_or None as"
    "tail c1 = last_or None as" by (simp_all add: lru_inv_def lru_list_def)
  from inv have fresh: "a \<notin> set as" by (auto simp: lru_inv_def a_def)
  let ?n = "\<lparr>key = k, node_value = v, prev = None, nxt = head c1, accessCount = 1,
            lastAccessed = now\<rparr>"
  have s2: "seg (nodes c2) None as None" using l(1) fresh by (simp add: c2_def seg_frame)
  have f3: "tail c3 = tail c1" "cache c3 = cache c1" "capacity c3 = capacity c1"
    "allocated c3 = Suc a" "head c3 = head c1"
    by (simp_all add: c3_def c2_def split: option.splits)
  have k3: "key (the_node c3 b) = (if b = a then k else key (the_node c1 b))" for b
    by (auto simp: c3_def c2_def the_node_def update_node_def split: option.splits)
  have s3: "seg (nodes c3) None (a # as) None"
  proof (cases as)
    case Nil
    with l(3) show ?thesis by (simp add: c3_def c2_def)
  next
    case (Cons x0 as')
    with l(2) fresh have x: "x0 \<notin> set as'" "x0 \<noteq> a" by auto
    have "seg ((nodes c2)(x0 \<mapsto> (the (nodes c2 x0))\<lparr>prev := Some a\<rparr>)) (Some a) (x0 # as') None"
      using s2 x(1) unfolding Cons by (rule seg_set_first)
    then show ?thesis
      using l(3) x(2) by (simp add: c3_def c2_def Cons update_node_def the_node_def)
  qed
  have t5: "tail c5 = last_or None (a # as)"
    using l(4) by (cases as) (simp_all add: c5_def c4_def f3 last_or_def)
  have f5: "nodes c5 = nodes c3" "head c5 = Some a"
    by (simp_all add: c5_def c4_def)
  have l6: "lru_list c6 (a # as)"
    using s3 l(2) fresh t5 f5 by (simp add: lru_list_def c6_def)
  have f6: "cache c6 = AList.update k a (cache c1)" "allocated c6 = Suc a"
    "capacity c6 = capacity c1" "\<And>b. key (the_node c6 b) = key (the_node c3 b)"
    by (simp_all add: c6_def c5_def c4_def f3 the_node_def)
  from new have nk: "map_of (cache c1) k = None" by (simp add: has_def)
  then have nd: "k \<notin> fst ` set (cache c1)" by (simp add: map_of_eq_None_iff)
  from inv have m: "\<And>k a. (map_of (cache c1) k = Some a) = (a \<in> set as \<and> key (the_node c1 a) = k)"
    by (simp add: lru_inv_def)
  have nokey: "\<And>b. b \<in> set as \<Longrightarrow> key (the_node c1 b) \<noteq> k"
    using m nk by (metis option.distinct(1))
  show "lru_inv c6 (a # as)"
    unfolding lru_inv_def
  proof (intro conjI allI)
    show "lru_list c6 (a # as)" by (rule l6)
    show "\<forall>b\<in>set (a # as). b < allocated c6"
      using inv by (auto simp: f6 lru_inv_def a_def)
    show "distinct (map fst (cache c6))"
      using inv by (simp add: f6 lru_inv_def distinct_update)
    show "length (cache c6) = length (a # as)"
      using inv nd by (simp add: f6 lru_inv_def update_new_key)
    fix k' b
    show "(map_of (cache c6) k' = Some b) = (b \<in> set (a # as) \<and> key (the_node c6 b) = k')"
      using m [of k' b] nokey [of b] fresh
      by (auto simp: f6 k3 update_conv')
  qed
  show "rkeys c6 (a # as) = k # rkeys c1 as"
    using fresh by (auto simp: rkeys_def f6 k3)
  show "capacity c6 = capacity c1" by (rule f6)
qed

lemma recency_put:
  assumes "recency c ks"
  shows "recency (put k v now c) (lru_put (capacity c) k ks)"
    and "capacity (put k v now c) = capacity c"
proof -
  from assms obtain as where inv: "lru_inv c as" and ks: "rkeys c as = ks"
    by (auto simp: recency_def)
  from inv have m: "\<And>k a. (map_of (cache c) k = Some a) = (a \<in> set as \<and> key (the_node c a) = k)"
    by (simp add: lru_inv_def)
  have "recency (put k v now c) (lru_put (capacity c) k ks) \<and>
        capacity (put k v now c) = capacity c"
  proof (cases "map_of (cache c) k")
    case (Some a)
    with m have a: "a \<in> set as" "key (the_node c a) = k" by auto
    then have kin: "k \<in> set ks" using ks by (auto simp: rkeys_def)
    let ?f = "\<lambda>n::('a, 'b) CacheNode. n\<lparr>node_value := v, lastAccessed := now\<rparr>"
    have p: "put k v now c = moveToFront a (update_node a ?f c)"
      using Some by (simp add: put_def)
    from lru_inv_touch [OF inv a(1), of ?f] a(2) ks kin show ?thesis
      unfolding p recency_def lru_put_def by auto
  next
    case None
    then have nh: "\<not> has c k" by (simp add: has_def)
    with inv ks have kn: "k \<notin> set ks" by (simp add: lru_inv_has)
    let ?full = "int (length (cache c)) \<ge> capacity c"
    let ?c1 = "if ?full then evictLRU c else c"
    let ?as1 = "if ?full then butlast as else as"
    have inv1: "lru_inv ?c1 ?as1" using inv evictLRU_inv(1) [OF inv] by simp
    have ks1: "rkeys ?c1 ?as1 = (if ?full then butlast ks else ks)"
      using ks evictLRU_inv(2) [OF inv] by simp
    have cap1: "capacity ?c1 = capacity c" using evictLRU_inv(3) [OF inv] by simp
    have "k \<notin> set (rkeys ?c1 ?as1)"
      unfolding ks1 using kn by (auto dest: in_set_butlastD)
    with inv1 have nh1: "\<not> has ?c1 k" by (simp add: lru_inv_has)
    note ins = insert_front_inv [OF inv1 nh1, of v now]
    have len: "length (cache c) = length ks" using inv ks by (simp add: lru_inv_length)
    have p: "put k v now c =
      (let c1 = ?c1; a = allocated c1;
           newNode = \<lparr>key = k, node_value = v, prev = None, nxt = head c1,
                      accessCount = 1, lastAccessed = now\<rparr>;
           c2 = c1\<lparr>nodes := (nodes c1)(a \<mapsto> newNode), allocated := a + 1\<rparr>;
           c3 = (case head c2 of
                   Some h \<Rightarrow> update_node h (\<lambda>n. n\<lparr>prev := Some a\<rparr>) c2
                 | None \<Rightarrow> c2);
           c4 = c3\<lparr>head := Some a\<rparr>;
           c5 = (if tail c4 = None then c4\<lparr>tail := Some a\<rparr> else c4)
       in c5\<lparr>cache := AList.update k a (cache c5)\<rparr>)"
      using None by (simp add: put_def)
    show ?thesis
      unfolding p Let_def recency_def lru_put_def
      using ins ks1 cap1 kn len by (intro conjI exI [of _ "allocated ?c1 # ?as1"]) auto
  qed
  then show "recency (put k v now c) (lru_put (capacity c) k ks)"
    and "capacity (put k v now c) = capacity c" by simp_all
qed

lemma recency_get:
  assumes "recency c ks"
  shows "recency (snd (get k now c)) (lru_get k ks)"
    and "capacity (snd (get k now c)) = capacity c"
    and "(fst (get k now c) = None) = (k \<notin> set ks)"
proof -
  from assms obtain as where inv: "lru_inv c as" and ks: "rkeys c as = ks"
    by (auto simp: recency_def)
  from inv have m: "\<And>k a. (map_of (cache c) k = Some a) = (a \<in> set as \<and> key (the_node c a) = k)"
    by (simp add: lru_inv_def)
  have "recency (snd (get k now c)) (lru_get k ks) \<and>
        capacity (snd (get k now c)) = capacity c \<and>
        (fst (get k now c) = None) = (k \<notin> set ks)"
  proof (cases "map_of (cache c) k")
    case None
    then have "\<not> has c k" by (simp add: has_def)
    with inv ks have kn: "k \<notin> set ks" by (simp add: lru_inv_has)
    have "lru_inv (c\<lparr>misses := misses c + 1\<rparr>) as"
      using inv by (simp add: lru_inv_def lru_list_def)
    moreover have "rkeys (c\<lparr>misses := misses c + 1\<rparr>) as = ks"
      using ks by (simp add: rkeys_def)
    ultimately show ?thesis
      using None kn by (auto simp: get_def recency_def lru_get_def)
  next
    case (Some a)
    with m have a: "a \<in> set as" "key (the_node c a) = k" by auto
    then have kin: "k \<in> set ks" using ks by (auto simp: rkeys_def)
    let ?c1 = "c\<lparr>hits := hits c + 1\<rparr>"
    let ?f = "\<lambda>n::('a, 'b) CacheNode. n\<lparr>accessCount := accessCount n + 1, lastAccessed := now\<rparr>"
    have inv1: "lru_inv ?c1 as" using inv by (simp add: lru_inv_def lru_list_def)
    have ks1: "rkeys ?c1 as = ks" using ks by (simp add: rkeys_def)
    have g: "get k now c =
      (Some (node_value (the_node (moveToFront a (update_node a ?f ?c1)) a)),
       moveToFront a (update_node a ?f ?c1))"
      using Some by (simp add: get_def Let_def)
    from lru_inv_touch [OF inv1 a(1), of ?f] a(2) ks1 kin show ?thesis
      unfolding g recency_def lru_get_def by auto
  qed
  then show "recency (snd (get k now c)) (lru_get k ks)"
    and "capacity (snd (get k now c)) = capacity c"
    and "(fst (get k now c) = None) = (k \<notin> set ks)" by simp_all
qed

lemma recency_put_all:
  "recency c ks \<Longrightarrow>
   recency (put_all es c) (lru_put_all (capacity c) (map fst es) ks) \<and>
   capacity (put_all es c) = capacity c"
proof (induction es arbitrary: c ks)
  case Nil
  then show ?case by simp
next
  case (Cons e es)
  obtain k v now where e: "e = (k, v, now)" by (cases e) auto
  from recency_put [OF Cons.prems, of k v now] Cons.IH [of "put k v now c" "lru_put (capacity c) k ks"]
  show ?case by (simp add: e)
qed

lemma lru_put_new:
  assumes "0 < N" "k \<notin> set ks" "length ks \<le> nat N"
  shows "lru_put N k ks = take (nat N) (k # ks)"
proof (cases "int (length ks) \<ge> N")
  case True
  with assms(3) have len: "length ks = nat N" by simp
  with assms(1) obtain n where n: "nat N = Suc n" by (cases "nat N") auto
  have "butlast ks = take n ks" using len n by (simp add: butlast_conv_take)
  with True assms(2) n show ?thesis by (simp add: lru_put_def)
next
  case False
  then have "length ks < nat N" by simp
  then obtain n where "nat N = Suc n" "length ks \<le> n" by (cases "nat N") auto
  with False assms(2) show ?thesis by (simp add: lru_put_def)
qed

lemma lru_put_all_new:
  "0 < N \<Longrightarrow> distinct (new @ ks) \<Longrightarrow> length ks \<le> nat N \<Longrightarrow>
   lru_put_all N new ks = take (nat N) (rev new @ ks)"
proof (induction new arbitrary: ks)
  case Nil
  then show ?case by simp
next
  case (Cons k new)
  from Cons.prems have k: "k \<notin> set ks" by auto
  have step: "lru_put N k ks = take (nat N) (k # ks)"
    by (rule lru_put_new [OF Cons.prems(1) k Cons.prems(3)])
  have sub: "set (take (nat N) (k # ks)) \<subseteq> set (k # ks)" by (rule set_take_subset)
  have "distinct (take (nat N) (k # ks))" using Cons.prems(2) k by (intro distinct_take) simp
  with sub Cons.prems(2) have d: "distinct (new @ take (nat N) (k # ks))" by auto
  have "lru_put_all N (k # new) ks = take (nat N) (rev new @ take (nat N) (k # ks))"
    using Cons.IH [OF Cons.prems(1) d] by (simp add: step)
  also have "\<dots> = take (nat N) (rev (k # new) @ ks)"
    by (simp add: take_Cons' min_def split: nat.splits) 
  finally show ?case .
qed

lemma has_put_all_fresh:
  assumes "0 < N" "distinct (map fst es)"
  shows "recency (put_all es (new_LRUCache N)) (take (nat N) (rev (map fst es)))"
    and "capacity (put_all es (new_LRUCache N)) = N"
proof -
  have c: "capacity (new_LRUCache N :: ('a, 'b) LRUCache) = N" by (simp add: new_LRUCache_def)
  from recency_put_all [OF recency_new [of N], where es = es] c
  have "recency (put_all es (new_LRUCache N)) (lru_put_all N (map fst es) [])"
    and "capacity (put_all es (new_LRUCache N)) = N" by simp_all
  moreover have "lru_put_all N (map fst es) [] = take (nat N) (rev (map fst es) @ [])"
    using assms by (intro lru_put_all_new) simp_all
  ultimately show "recency (put_all es (new_LRUCache N)) (take (nat N) (rev (map fst es)))"
    and "capacity (put_all es (new_LRUCache N)) = N" by simp_all
qed

text \<open>
  C1, as the code has it. A cache of capacity \<open>N > 0\<close>, filled from empty with entries of
  distinct keys. (a) After \<open>N + 1\<close> puts the first key is gone and exactly the others are
  present. (b) After \<open>N\<close> puts and a \<open>get\<close> of one of the keys, \<open>K\<close>, that hits, further puts
  of new distinct keys keep \<open>K\<close> exactly as long as there are fewer than \<open>N\<close> of them: \<open>K\<close>
  survives \<open>N - 1\<close> new keys and the \<open>N\<close>-th evicts it.
\<close>

theorem C1_lru_eviction_and_refresh:
  assumes "0 < N" and "distinct (map fst es)"
  shows "(length es = nat N + 1 \<longrightarrow>
            \<not> has (put_all es (new_LRUCache N)) (fst (hd es)) \<and>
            (\<forall>k. has (put_all es (new_LRUCache N)) k = (k \<in> set (map fst (tl es))))) \<and>
         (length es = nat N \<and> K \<in> set (map fst es) \<and> distinct (map fst (es @ later)) \<longrightarrow>
            fst (get K now (put_all es (new_LRUCache N))) \<noteq> None \<and>
            has (put_all later (snd (get K now (put_all es (new_LRUCache N))))) K =
              (length later < nat N))"
proof (intro conjI impI)
  let ?keys = "map fst es"
  let ?c = "put_all es (new_LRUCache N)"
  note rc = has_put_all_fresh [OF assms]
  {
    assume len: "length es = nat N + 1"
    then obtain e es' where es: "es = e # es'" by (cases es) auto
    with len have l': "length es' = nat N" by simp
    have "take (nat N) (rev ?keys) = rev (map fst es')"
      using l' by (simp add: es)
    with rc(1) have r: "recency ?c (rev (map fst es'))" by simp
    show "\<not> has ?c (fst (hd es))"
      using recency_has [OF r, of "fst e"] assms(2) by (simp add: es)
    show "\<forall>k. has ?c k = (k \<in> set (map fst (tl es)))"
      using recency_has [OF r] by (simp add: es)
  }
  assume h: "length es = nat N \<and> K \<in> set (map fst es) \<and> distinct (map fst (es @ later))"
  then have len: "length es = nat N" and K: "K \<in> set ?keys"
    and d: "distinct (map fst (es @ later))" by simp_all
  have "take (nat N) (rev ?keys) = rev ?keys" using len by simp
  with rc(1) have r: "recency ?c (rev ?keys)" by simp
  let ?c1 = "snd (get K now ?c)"
  let ?ks1 = "K # remove1 K (rev ?keys)"
  from recency_get [OF r, of K now] K rc(2)
  have r1: "recency ?c1 ?ks1" and cap1: "capacity ?c1 = N"
    and hit: "fst (get K now ?c) \<noteq> None"
    by (simp_all add: lru_get_def)
  show "fst (get K now ?c) \<noteq> None" by (rule hit)
  have "es \<noteq> []" using K by auto
  then have l1: "length ?ks1 = nat N" using len K by (cases es) (simp_all add: length_remove1)
  have s1: "set ?ks1 = set ?keys" using K assms(2) by auto
  have d1: "distinct (map fst later @ ?ks1)"
    using d s1 assms(2) K by auto
  from recency_put_all [OF r1, where es = later] cap1
  have "recency (put_all later ?c1) (lru_put_all N (map fst later) ?ks1)" by simp
  also have "lru_put_all N (map fst later) ?ks1 = take (nat N) (rev (map fst later) @ ?ks1)"
    using d1 l1 assms(1) by (intro lru_put_all_new) simp_all
  finally have r2: "recency (put_all later ?c1) (take (nat N) (rev (map fst later) @ ?ks1))" .
  have Kn: "K \<notin> set (map fst later)" using d K by auto
  have "(K \<in> set (take (nat N) (rev (map fst later) @ ?ks1))) = (length later < nat N)"
  proof (cases "length later < nat N")
    case True
    then obtain n where "nat N - length later = Suc n" by (cases "nat N - length later") auto
    with True show ?thesis by simp
  next
    case False
    then have "take (nat N) (rev (map fst later) @ ?ks1) = take (nat N) (rev (map fst later))"
      by simp
    moreover have "K \<notin> set (take (nat N) (rev (map fst later)))"
      using Kn by (auto dest: in_set_takeD)
    ultimately show ?thesis using False by simp
  qed
  with recency_has [OF r2, of K]
  show "has (put_all later ?c1) K = (length later < nat N)" by simp
qed

theorem C1_lru_eviction_and_refresh_witness:
  "(0::int) < 2 \<and>
   (let c = put_all [(1::nat, ''a'', 1), (2, ''b'', 2), (3, ''c'', 3)] (new_LRUCache 2)
    in \<not> has c 1 \<and> has c 2 \<and> has c 3) \<and>
   (let c = put_all [(1::nat, ''a'', 1), (2, ''b'', 2)] (new_LRUCache 2)
    in fst (get 1 3 c) \<noteq> None \<and> has (put_all [(3, ''c'', 4)] (snd (get 1 3 c))) 1)"
  using C1_lru_eviction_and_refresh
      [of 2 "[(1::nat, ''a'', 1), (2, ''b'', 2), (3, ''c'', 3)]" 1 "[]" 0]
    C1_lru_eviction_and_refresh
      [of 2 "[(1::nat, ''a'', 1), (2, ''b'', 2)]" 1 "[(3, ''c'', 4)]" 3]
  by (simp add: Let_def)

text \<open>
  C1 (b) as stated fails. With capacity 2, after \<open>put 1\<close>, \<open>put 2\<close>, \<open>get 1\<close> and two
  further puts (keys 3 and 4), key 1 is no longer in the cache: the first new key evicts
  key 2, the second evicts key 1.
\<close>

theorem C1_refreshed_key_evicted_by_Nth_put:
  "(let c = put_all [(1::nat, ''a'', 1), (2, ''b'', 2)] (new_LRUCache 2);
        c1 = snd (get 1 3 c);
        c2 = put_all [(3, ''c'', 4), (4, ''d'', 5)] c1
    in fst (get 1 3 c) = Some ''a'' \<and> keys c1 = [1, 2] \<and> \<not> has c2 1 \<and> keys c2 = [3, 4])"
  by code_simp

section \<open>Statistics: the shape of the ratio fields (C8)\<close>

lemma digit_char_is_digit: "d < 10 \<Longrightarrow> is_digit (digit_char d)"
proof -
  assume "d < 10"
  then have "d \<in> {0, 1, 2, 3, 4, 5, 6, 7, 8, 9}" by auto
  then show ?thesis by (auto simp: is_digit_def digit_char_def)
qed

lemma digits_ok: "digits n \<noteq> [] \<and> list_all is_digit (digits n)"
proof (induction n rule: digits.induct)
  case (1 n)
  show ?case
  proof (cases "n < 10")
    case True
    then have "nat n < 10" by simp
    with True show ?thesis by (subst (1 2) digits.simps) (simp add: digit_char_is_digit)
  next
    case False
    have "nat (n mod 10) < 10" by simp
    with False "1.IH" show ?thesis
      by (subst (1 2) digits.simps) (simp add: digit_char_is_digit)
  qed
qed

lemma two_decimals_point:
  assumes "list_all is_digit m" "3 \<le> length m"
  shows "two_decimals (take (length m - 2) m @ ''.'' @ drop (length m - 2) m)"
proof -
  let ?ip = "take (length m - 2) m"
  obtain d1 d2 where d: "drop (length m - 2) m = [d1, d2]"
  proof -
    have "length (drop (length m - 2) m) = 2" using assms(2) by simp
    then show ?thesis using that
      by (cases "drop (length m - 2) m"; cases "tl (drop (length m - 2) m)") auto
  qed
  have all: "list_all is_digit ?ip" "list_all is_digit [d1, d2]"
    using assms(1) d [symmetric]
    by (auto simp: list_all_iff dest: in_set_takeD in_set_dropD)
  have ne: "?ip \<noteq> []" using assms(2) by auto
  then have "is_digit (hd ?ip)" using all(1) by (cases ?ip) auto
  then have nominus: "hd (?ip @ ''.'' @ [d1, d2]) \<noteq> CHR ''-''"
    using ne by (auto simp: is_digit_def)
  show ?thesis
    unfolding d two_decimals_def using nominus all ne
    by (simp add: list_all_iff)
qed

lemma fixed2_ok: "two_decimals (fixed2 a b)" "fixed2 a b \<noteq> []" "hd (fixed2 a b) \<noteq> CHR ''-''"
proof -
  define n where "n = (200 * a + b) div (2 * b)"
  define m where "m = replicate (3 - length (digits n)) (CHR ''0'') @ digits n"
  have "is_digit (CHR ''0'')" by (simp add: is_digit_def)
  then have all: "list_all is_digit m"
    using digits_ok [of n] by (auto simp: list_all_iff m_def)
  have len: "3 \<le> length m" by (simp add: m_def)
  have f: "fixed2 a b = take (length m - 2) m @ ''.'' @ drop (length m - 2) m"
    by (simp add: fixed2_def Let_def m_def n_def)
  show "two_decimals (fixed2 a b)" unfolding f by (rule two_decimals_point [OF all len])
  show "fixed2 a b \<noteq> []" unfolding f by simp
  define ip where "ip = take (length m - 2) m"
  have ne: "ip \<noteq> []" using len by (auto simp: ip_def)
  have "set ip \<subseteq> set m" unfolding ip_def by (rule set_take_subset)
  with all ne have "is_digit (hd ip)" by (cases ip) (auto simp: list_all_iff)
  moreover have "hd (fixed2 a b) = hd ip" unfolding f ip_def [symmetric] using ne by simp
  ultimately show "hd (fixed2 a b) \<noteq> CHR ''-''" by (auto simp: is_digit_def)
qed

lemma toFixed2_Ratio: "two_decimals (toFixed2 (Ratio a b))"
  using fixed2_ok [of a b] fixed2_ok [of "- a" b]
  by (auto simp: toFixed2_def two_decimals_def)

lemma js_quot_Ratio: "\<exists>n d. js_quot a b = Ratio n d"
  by (simp add: js_quot_def split: prod.splits)

lemma js_div_Ratio: "b \<noteq> 0 \<Longrightarrow> \<exists>n d. js_div a b = Ratio n d"
  by (simp add: js_div_def js_quot_Ratio)

lemma toFixed2_div: "b \<noteq> 0 \<Longrightarrow> two_decimals (toFixed2 (js_div a b))"
proof -
  assume "b \<noteq> 0"
  then obtain n d where "js_div a b = Ratio n d" using js_div_Ratio by blast
  then show ?thesis by (simp add: toFixed2_Ratio)
qed

lemma toFixed2_percent: "b \<noteq> 0 \<Longrightarrow> percent2 (toFixed2 (js_times100 (js_div a b)) @ ''%'')"
proof -
  assume "b \<noteq> 0"
  then obtain n d where q: "js_div a b = Ratio n d" using js_div_Ratio by blast
  obtain n' d' where "js_quot (100 * n) d = Ratio n' d'" using js_quot_Ratio by blast
  with q show ?thesis by (simp add: js_times100_def percent2_def toFixed2_Ratio)
qed

text \<open>
  The last digit is that of the double, not of the exact quotient: \<open>3 / 40\<close> is a double
  just below \<open>0.075\<close>, and \<open>23 / 160 * 100\<close> one just below \<open>14.375\<close>.
\<close>

lemma toFixed2_rounds_the_double:
  "toFixed2 (js_div 3 40) = ''0.07'' \<and> toFixed2 (js_times100 (js_div 23 160)) = ''14.37'' \<and>
   toFixed2 (js_div 1 8) = ''0.13'' \<and> toFixed2 (js_times100 (js_div 2 3)) = ''66.67'' \<and>
   js_div 1 3 = Ratio 6004799503160661 18014398509481984"
  by code_simp

text \<open>
  C8, as the code has it. When the cache has been accessed at least once, its capacity and
  the semaphore's capacity are not zero, there is at least one worker, no worker has
  \<open>maxLoad\<close> zero and the total capacity is positive, every ratio field of the snapshot is a
  number with exactly two decimals, the percentages followed by \<open>%\<close>.
\<close>

theorem C8_ratio_fields_two_decimals:
  assumes "0 < hits (threadCache s) + misses (threadCache s)"
    and "capacity (threadCache s) \<noteq> 0"
    and "maxPermits (connectionSemaphore s) \<noteq> 0"
    and "workers (messageScheduler s) \<noteq> []"
    and "0 < sum_list (map maxLoad (workers (messageScheduler s)))"
    and "\<forall>w \<in> set (workers (messageScheduler s)). maxLoad w \<noteq> 0"
  shows "percent2 (hitRate (stats_threadCache (get_os_stats s))) \<and>
         percent2 (cache_utilizationRate (stats_threadCache (get_os_stats s))) \<and>
         percent2 (sem_utilizationRate (stats_connectionSemaphore (get_os_stats s))) \<and>
         percent2 (sched_utilizationRate (stats_messageScheduler (get_os_stats s))) \<and>
         (\<forall>row \<in> set (worker_rows (stats_messageScheduler (get_os_stats s))).
            percent2 (worker_utilizationRate row)) \<and>
         (\<exists>str. avgLoad (stats_messageScheduler (get_os_stats s)) = JsString str \<and>
                two_decimals str)"
  using assms
  by (auto simp: get_os_stats_def cache_getStats_def semaphore_getStats_def
      scheduler_getStats_def Let_def toFixed2_percent toFixed2_div)


theorem C8_ratio_fields_two_decimals_witness:
  "(let s = initial_server\<lparr>threadCache := snd (get ''t1'' 1 (threadCache initial_server))\<rparr>
    in 0 < hits (threadCache s) + misses (threadCache s) \<and>
       hitRate (stats_threadCache (get_os_stats s)) = ''0.00%'' \<and>
       percent2 (hitRate (stats_threadCache (get_os_stats s))) \<and>
       percent2 (cache_utilizationRate (stats_threadCache (get_os_stats s))) \<and>
       percent2 (sem_utilizationRate (stats_connectionSemaphore (get_os_stats s))) \<and>
       percent2 (sched_utilizationRate (stats_messageScheduler (get_os_stats s))) \<and>
       avgLoad (stats_messageScheduler (get_os_stats s)) = JsString ''0.00'')"
proof -
  let ?s = "initial_server\<lparr>threadCache := snd (get ''t1'' 1 (threadCache initial_server))\<rparr>"
  have h: "0 < hits (threadCache ?s) + misses (threadCache ?s)"
    "capacity (threadCache ?s) \<noteq> 0"
    "maxPermits (connectionSemaphore ?s) \<noteq> 0"
    "workers (messageScheduler ?s) \<noteq> []"
    "0 < sum_list (map maxLoad (workers (messageScheduler ?s)))"
    "\<forall>w \<in> set (workers (messageScheduler ?s)). maxLoad w \<noteq> 0"
    by code_simp+
  have v: "hitRate (stats_threadCache (get_os_stats ?s)) = ''0.00%''"
    "avgLoad (stats_messageScheduler (get_os_stats ?s)) = JsString ''0.00''"
    by code_simp+
  from C8_ratio_fields_two_decimals [OF h] h(1) v show ?thesis
    by (simp add: Let_def)
qed

text \<open>
  C8 as stated fails in the server's first state: with no cache access yet \<open>hitRate\<close> is
  \<open>"0%"\<close> (the number \<open>0\<close> printed by the template), and a scheduler without workers reports
  \<open>avgLoad\<close> as the number \<open>0\<close> and \<open>utilizationRate\<close> as \<open>"0%"\<close>.
\<close>

theorem C8_fresh_server_hit_rate:
  "hitRate (stats_threadCache (get_os_stats initial_server)) = ''0%'' \<and>
   \<not> percent2 (hitRate (stats_threadCache (get_os_stats initial_server))) \<and>
   avgLoad (scheduler_getStats (new_RoundRobinScheduler 1000)) = JsNumber 0 \<and>
   sched_utilizationRate (scheduler_getStats (new_RoundRobinScheduler 1000)) = ''0%'' \<and>
   \<not> percent2 (sched_utilizationRate (scheduler_getStats (new_RoundRobinScheduler 1000)))"
  by code_simp


section \<open>The \<open>send-message\<close> handler: a refused request (C10)\<close>

text \<open>
  C10. When \<open>requestResource\<close> returns \<open>false\<close> the handler sends the error to the sender's
  socket and returns: the queue, the cache, the threads with their logs and the scheduler
  are what they were. Only the detector's own state and the list of sent events change.
\<close>

theorem C10_refused_send_changes_only_detector:
  assumes "fst (requestResource (senderId m) tid (deadlockDetector s)) = False"
  shows "send_message sock tid m clock s =
           Inr (s\<lparr>deadlockDetector :=
                    snd (requestResource (senderId m) tid (deadlockDetector s)),
                  emitted := emitted s @ [Error_event sock ''Resource temporarily unavailable'']\<rparr>) \<and>
         (case send_message sock tid m clock s of
            Inl failure \<Rightarrow> False
          | Inr s' \<Rightarrow>
              messageQueue s' = messageQueue s \<and> threadCache s' = threadCache s \<and>
              threads s' = threads s \<and> messageScheduler s' = messageScheduler s \<and>
              emitted s' = emitted s @ [Error_event sock ''Resource temporarily unavailable''])"
  using assms
  by (cases clock; cases "requestResource (senderId m) tid (deadlockDetector s)")
     (simp add: send_message_def)

theorem C10_refused_send_changes_only_detector_witness:
  "(let s = initial_server
              \<lparr>deadlockDetector := snd (requestResource ''u2'' ''u1-u2'' new_DeadlockDetector)\<rparr>;
        m = \<lparr>msg_id = ''m1'', senderId = ''u1'', content = ''hello'', msg_timestamp = ''t''\<rparr>
    in fst (requestResource (senderId m) ''u1-u2'' (deadlockDetector s)) = False \<and>
       (case send_message ''s1'' ''u1-u2'' m (1, 2, 3) s of
          Inl failure \<Rightarrow> False
        | Inr s' \<Rightarrow>
            messageQueue s' = messageQueue s \<and> threadCache s' = threadCache s \<and>
            threads s' = threads s \<and> messageScheduler s' = messageScheduler s \<and>
            emitted s' = [Error_event ''s1'' ''Resource temporarily unavailable'']))"
proof -
  let ?s = "initial_server
              \<lparr>deadlockDetector := snd (requestResource ''u2'' ''u1-u2'' new_DeadlockDetector)\<rparr>"
  let ?m = "\<lparr>msg_id = ''m1'', senderId = ''u1'', content = ''hello'', msg_timestamp = ''t''\<rparr>"
  have h: "fst (requestResource (senderId ?m) ''u1-u2'' (deadlockDetector ?s)) = False"
    by code_simp
  have e: "emitted ?s = []" by (simp add: initial_server_def)
  from C10_refused_send_changes_only_detector [OF h, of "''s1''" "(1, 2, 3)"] h e
  show ?thesis by (simp add: Let_def split: sum.splits)
qed

text \<open>For contrast, an accepted message does reach the queue, the threads and the cache.\<close>

lemma accepted_send_reaches_every_component:
  "(case send_message ''s1'' ''u1-u2''
           \<lparr>msg_id = ''m1'', senderId = ''u1'', content = ''hello'', msg_timestamp = ''t''\<rparr>
           (1, 2, 3) initial_server of
      Inl failure \<Rightarrow> False
    | Inr s' \<Rightarrow>
        map qm_id (case sending (messageQueue s') of None \<Rightarrow> [] | Some q \<Rightarrow> [q]) = [''m1''] \<and>
        keys (threadCache s') = [''u1-u2''] \<and>
        map fst (threads s') = [''u1-u2''] \<and>
        currentIndex (messageScheduler s') = 1 \<and>
        map_option holder (map_of (resources (deadlockDetector s')) ''u1-u2'') = Some None)"
  by code_simp

end
